theory Spec2Isabelle
  imports Main
begin

section \<open>A shallow embedding of \<open>vector.h\<close>\<close>

text \<open>
  The header defines two class templates: \<open>RawMemory<T>\<close>, which owns one block of raw,
  uninitialised storage, and \<open>Vector<T>\<close>, which owns one \<open>RawMemory<T>\<close> and a count of
  live elements. The model keeps both as records, the \<open>Vector\<close> objects in a store
  indexed by reference (so that \<open>*this\<close> and an argument may be the same object), and the
  raw blocks in a second store indexed by address. A slot of a block is either raw
  (\<open>Uninit\<close>) or holds a constructed element (\<open>Live x\<close>).

  Conventions of the embedding:
  \<^item> The members \<open>buffer_\<close>, \<open>capacity_\<close>, \<open>data_\<close>, \<open>size_\<close> are the fields
    \<open>buffer_m\<close>, \<open>capacity_m\<close>, \<open>data_m\<close>, \<open>size_m\<close>; \<open>begin\<close> and \<open>end\<close> are
    \<open>begin_it\<close> and \<open>end_it\<close>.
  \<^item> \<open>size_t\<close> is \<open>nat\<close>. A block of \<open>2^63\<close> elements cannot be allocated, so the
    product \<open>Capacity() * 2\<close> and the increments of \<open>size_\<close> never wrap; the one
    decrement that can wrap (\<open>size_ - 1\<close> at size 0) is written out in \<open>dec\<close>.
  \<^item> The \<open>assert\<close>s of \<open>RawMemory\<close> are compiled out (release build); accesses outside
    a block are undefined behaviour in the source. The model makes a read outside a block
    return \<open>Uninit\<close> and a write outside a block do nothing, and every theorem about
    such an access states the bound it needs.
  \<^item> An exception is a result \<open>Inl e\<close> paired with the state in which it leaves the
    function; \<open>Inr r\<close> is a normal return.
\<close>

subsection \<open>Element type, slots, pointers\<close>

text \<open>
  What the code asks of the element type \<open>T\<close>: the two traits of the \<open>if constexpr\<close>
  tests, which values make the copy and the move constructor raise, the state a move
  leaves its source in, and the value of value-initialisation. A move constructor of a
  type with \<open>is_nothrow_move_constructible_v<T>\<close> never raises. Assignment, destruction
  and value-initialisation do not raise in the model.
\<close>

record 'a elem_type =
  nothrow_move_constructible :: bool
  copy_constructible :: bool
  copy_raises :: "'a \<Rightarrow> bool"
  move_raises :: "'a \<Rightarrow> bool"
  moved_from :: "'a \<Rightarrow> 'a"
  value_init :: 'a

datatype 'a slot = Uninit | Live 'a

fun is_Live :: "'a slot \<Rightarrow> bool" where
  "is_Live (Live x) = True"
| "is_Live Uninit = False"

type_synonym addr = nat
type_synonym vref = nat

text \<open>A \<open>T*\<close>: \<open>nullptr\<close>, or the address of a block and a slot offset in it.\<close>

datatype ptr = Null | Ptr addr nat

datatype error = BadAlloc | CtorFailure

record RawMemory =
  buffer_m :: ptr
  capacity_m :: nat

record Vector =
  data_m :: RawMemory
  size_m :: nat

text \<open>
  The store: the \<open>Vector\<close> objects, the raw blocks, the next fresh block address, the
  number of slots \<open>operator new\<close> can still hand out, and the next free object reference
  (objects with automatic storage are allocated and released there, as on a stack).
\<close>

record 'a state =
  objs :: "vref \<Rightarrow> Vector"
  mem :: "addr \<Rightarrow> 'a slot list option"
  next_addr :: addr
  avail :: nat
  next_ref :: vref

fun ptr_add :: "ptr \<Rightarrow> nat \<Rightarrow> ptr" where
  "ptr_add Null n = Null"
| "ptr_add (Ptr a i) n = Ptr a (i + n)"

fun ptr_sub :: "ptr \<Rightarrow> nat \<Rightarrow> ptr" where
  "ptr_sub Null n = Null"
| "ptr_sub (Ptr a i) n = Ptr a (i - n)"

text \<open>\<open>p - q\<close> as \<open>int64_t\<close>; defined in the source only for pointers into one block.\<close>

fun ptr_diff :: "ptr \<Rightarrow> ptr \<Rightarrow> int" where
  "ptr_diff (Ptr a i) (Ptr b j) = int i - int j"
| "ptr_diff (Ptr a i) Null = int i"
| "ptr_diff Null (Ptr b j) = - int j"
| "ptr_diff Null Null = 0"

definition dec :: "nat \<Rightarrow> nat" where
  "dec n = (if n = 0 then 2 ^ 64 - 1 else n - 1)"

definition rd :: "'a state \<Rightarrow> ptr \<Rightarrow> 'a slot" where
  "rd s p =
     (case p of
        Null \<Rightarrow> Uninit
      | Ptr a i \<Rightarrow>
          (case mem s a of
             None \<Rightarrow> Uninit
           | Some b \<Rightarrow> if i < length b then b ! i else Uninit))"

definition wr :: "ptr \<Rightarrow> 'a slot \<Rightarrow> 'a state \<Rightarrow> 'a state" where
  "wr p x s =
     (case p of
        Null \<Rightarrow> s
      | Ptr a i \<Rightarrow>
          (case mem s a of
             None \<Rightarrow> s
           | Some b \<Rightarrow> s\<lparr>mem := (mem s)(a \<mapsto> b[i := x])\<rparr>))"

subsection \<open>Operations on single elements\<close>

text \<open>\<open>new (p) T(x)\<close> with the copy constructor.\<close>

definition copy_construct ::
  "'a elem_type \<Rightarrow> ptr \<Rightarrow> 'a \<Rightarrow> 'a state \<Rightarrow> (error + unit) \<times> 'a state" where
  "copy_construct T p x s =
     (if copy_raises T x then (Inl CtorFailure, s) else (Inr (), wr p (Live x) s))"

text \<open>\<open>new (p) T(*q)\<close>: copy-construct at \<open>p\<close> from the element at \<open>q\<close>.\<close>

definition copy_construct_from ::
  "'a elem_type \<Rightarrow> ptr \<Rightarrow> ptr \<Rightarrow> 'a state \<Rightarrow> (error + unit) \<times> 'a state" where
  "copy_construct_from T p q s =
     (case rd s q of
        Uninit \<Rightarrow> (Inr (), s)
      | Live x \<Rightarrow> copy_construct T p x s)"

text \<open>\<open>new (p) T(std::move(*q))\<close>: the source element stays alive, in its moved-from state.\<close>

definition move_construct_from ::
  "'a elem_type \<Rightarrow> ptr \<Rightarrow> ptr \<Rightarrow> 'a state \<Rightarrow> (error + unit) \<times> 'a state" where
  "move_construct_from T p q s =
     (case rd s q of
        Uninit \<Rightarrow> (Inr (), s)
      | Live x \<Rightarrow>
          if \<not> nothrow_move_constructible T \<and> move_raises T x then (Inl CtorFailure, s)
          else (Inr (), wr p (Live x) (wr q (Live (moved_from T x)) s)))"

text \<open>\<open>p->~T()\<close>.\<close>

definition destroy_at :: "ptr \<Rightarrow> 'a state \<Rightarrow> 'a state" where
  "destroy_at p s = wr p Uninit s"

text \<open>\<open>*p = *q\<close>.\<close>

definition copy_assign :: "ptr \<Rightarrow> ptr \<Rightarrow> 'a state \<Rightarrow> 'a state" where
  "copy_assign p q s =
     (case rd s q of
        Uninit \<Rightarrow> s
      | Live x \<Rightarrow> wr p (Live x) s)"

text \<open>\<open>*p = std::move(*q)\<close>.\<close>

definition move_assign :: "'a elem_type \<Rightarrow> ptr \<Rightarrow> ptr \<Rightarrow> 'a state \<Rightarrow> 'a state" where
  "move_assign T p q s =
     (case rd s q of
        Uninit \<Rightarrow> s
      | Live x \<Rightarrow> wr p (Live x) (wr q (Live (moved_from T x)) s))"

text \<open>
  How a new element is given to \<open>PushBack\<close>, \<open>Insert\<close>, \<open>EmplaceBack\<close> and \<open>Emplace\<close>:
  \<open>const T&\<close> (copied), \<open>T&&\<close> (moved), or constructor arguments (\<open>Args x\<close> when
  \<open>T(args...)\<close> builds \<open>x\<close>, \<open>ArgsRaise\<close> when it raises). The overloads of one
  operation differ in nothing else.
\<close>

datatype 'a arg = ByCopy 'a | ByMove 'a | Args 'a | ArgsRaise

fun make_value :: "'a elem_type \<Rightarrow> 'a arg \<Rightarrow> error + 'a" where
  "make_value T (ByCopy x) = (if copy_raises T x then Inl CtorFailure else Inr x)"
| "make_value T (ByMove x) =
     (if \<not> nothrow_move_constructible T \<and> move_raises T x then Inl CtorFailure else Inr x)"
| "make_value T (Args x) = Inr x"
| "make_value T ArgsRaise = Inl CtorFailure"

text \<open>\<open>new (p) T(...)\<close> from such an argument.\<close>

definition construct_value ::
  "'a elem_type \<Rightarrow> ptr \<Rightarrow> 'a arg \<Rightarrow> 'a state \<Rightarrow> (error + unit) \<times> 'a state" where
  "construct_value T p v s =
     (case make_value T v of
        Inl e \<Rightarrow> (Inl e, s)
      | Inr x \<Rightarrow> (Inr (), wr p (Live x) s))"

subsection \<open>The standard algorithms the header calls\<close>

text \<open>
  \<open>std::uninitialized_copy_n(first, n, d)\<close>: copy-constructs \<open>n\<close> elements; when a
  constructor raises, the elements already constructed at the destination are destroyed
  and the exception leaves the call.
\<close>

fun uninitialized_copy_n ::
  "'a elem_type \<Rightarrow> ptr \<Rightarrow> nat \<Rightarrow> ptr \<Rightarrow> 'a state \<Rightarrow> (error + unit) \<times> 'a state" where
  "uninitialized_copy_n T first 0 d s = (Inr (), s)"
| "uninitialized_copy_n T first (Suc n) d s =
     (case copy_construct_from T d first s of
        (Inl e, s1) \<Rightarrow> (Inl e, s1)
      | (Inr _, s1) \<Rightarrow>
          (case uninitialized_copy_n T (ptr_add first 1) n (ptr_add d 1) s1 of
             (Inl e, s2) \<Rightarrow> (Inl e, destroy_at d s2)
           | (Inr u, s2) \<Rightarrow> (Inr u, s2)))"

text \<open>\<open>std::uninitialized_move_n(first, n, d)\<close>: the same with the move constructor.\<close>

fun uninitialized_move_n ::
  "'a elem_type \<Rightarrow> ptr \<Rightarrow> nat \<Rightarrow> ptr \<Rightarrow> 'a state \<Rightarrow> (error + unit) \<times> 'a state" where
  "uninitialized_move_n T first 0 d s = (Inr (), s)"
| "uninitialized_move_n T first (Suc n) d s =
     (case move_construct_from T d first s of
        (Inl e, s1) \<Rightarrow> (Inl e, s1)
      | (Inr _, s1) \<Rightarrow>
          (case uninitialized_move_n T (ptr_add first 1) n (ptr_add d 1) s1 of
             (Inl e, s2) \<Rightarrow> (Inl e, destroy_at d s2)
           | (Inr u, s2) \<Rightarrow> (Inr u, s2)))"

text \<open>
  The relocation of the \<open>if constexpr\<close> blocks (lines 165/178, 308/310, 326/328, 406/408):
  move when the move constructor cannot raise or the type cannot be copied, else copy.
\<close>

definition relocate_n ::
  "'a elem_type \<Rightarrow> ptr \<Rightarrow> nat \<Rightarrow> ptr \<Rightarrow> 'a state \<Rightarrow> (error + unit) \<times> 'a state" where
  "relocate_n T first n d s =
     (if nothrow_move_constructible T \<or> \<not> copy_constructible T
      then uninitialized_move_n T first n d s
      else uninitialized_copy_n T first n d s)"

text \<open>\<open>std::destroy_n(first, n)\<close>.\<close>

fun destroy_n :: "ptr \<Rightarrow> nat \<Rightarrow> 'a state \<Rightarrow> 'a state" where
  "destroy_n first 0 s = s"
| "destroy_n first (Suc n) s = destroy_n (ptr_add first 1) n (destroy_at first s)"

text \<open>\<open>std::uninitialized_value_construct_n(first, n)\<close>.\<close>

fun uninitialized_value_construct_n :: "'a elem_type \<Rightarrow> ptr \<Rightarrow> nat \<Rightarrow> 'a state \<Rightarrow> 'a state" where
  "uninitialized_value_construct_n T first 0 s = s"
| "uninitialized_value_construct_n T first (Suc n) s =
     uninitialized_value_construct_n T (ptr_add first 1) n (wr first (Live (value_init T)) s)"

text \<open>
  \<open>std::move(first, last, d)\<close> moves front to back, \<open>std::move_backward(first, last, d_last)\<close>
  back to front; both by move assignment. The count is \<open>last - first\<close>.
\<close>

fun move_n :: "'a elem_type \<Rightarrow> ptr \<Rightarrow> nat \<Rightarrow> ptr \<Rightarrow> 'a state \<Rightarrow> 'a state" where
  "move_n T first 0 d s = s"
| "move_n T first (Suc n) d s = move_n T (ptr_add first 1) n (ptr_add d 1) (move_assign T d first s)"

definition std_move :: "'a elem_type \<Rightarrow> ptr \<Rightarrow> ptr \<Rightarrow> ptr \<Rightarrow> 'a state \<Rightarrow> 'a state" where
  "std_move T first lst d s = move_n T first (nat (ptr_diff lst first)) d s"

fun move_backward_n :: "'a elem_type \<Rightarrow> ptr \<Rightarrow> nat \<Rightarrow> ptr \<Rightarrow> 'a state \<Rightarrow> 'a state" where
  "move_backward_n T lst 0 d_last s = s"
| "move_backward_n T lst (Suc n) d_last s =
     move_backward_n T (ptr_sub lst 1) n (ptr_sub d_last 1)
       (move_assign T (ptr_sub d_last 1) (ptr_sub lst 1) s)"

definition move_backward :: "'a elem_type \<Rightarrow> ptr \<Rightarrow> ptr \<Rightarrow> ptr \<Rightarrow> 'a state \<Rightarrow> 'a state" where
  "move_backward T first lst d_last s = move_backward_n T lst (nat (ptr_diff lst first)) d_last s"

subsection \<open>\<open>RawMemory<T>\<close>\<close>

definition RawMemory_default :: RawMemory where
  "RawMemory_default = \<lparr>buffer_m = Null, capacity_m = 0\<rparr>"

text \<open>
  \<open>Allocate(n)\<close>: \<open>nullptr\<close> for \<open>n = 0\<close>, else \<open>operator new\<close>, which raises
  \<open>std::bad_alloc\<close> when the request exceeds what is left, and otherwise returns a fresh
  block of \<open>n\<close> raw slots.
\<close>

definition Allocate :: "nat \<Rightarrow> 'a state \<Rightarrow> (error + ptr) \<times> 'a state" where
  "Allocate n s =
     (if n = 0 then (Inr Null, s)
      else if avail s < n then (Inl BadAlloc, s)
      else (Inr (Ptr (next_addr s) 0),
            s\<lparr>mem := (mem s)(next_addr s \<mapsto> replicate n Uninit),
              next_addr := next_addr s + 1,
              avail := avail s - n\<rparr>))"

text \<open>\<open>Deallocate(buf)\<close>: \<open>operator delete\<close>; it destroys no element.\<close>

definition Deallocate :: "ptr \<Rightarrow> 'a state \<Rightarrow> 'a state" where
  "Deallocate buf s =
     (case buf of
        Null \<Rightarrow> s
      | Ptr a i \<Rightarrow>
          (case mem s a of
             None \<Rightarrow> s
           | Some b \<Rightarrow> s\<lparr>mem := (mem s)(a := None), avail := avail s + length b\<rparr>))"

text \<open>\<open>explicit RawMemory(size_t capacity)\<close>.\<close>

definition RawMemory_ctor :: "nat \<Rightarrow> 'a state \<Rightarrow> (error + RawMemory) \<times> 'a state" where
  "RawMemory_ctor capacity s =
     (case Allocate capacity s of
        (Inl e, s1) \<Rightarrow> (Inl e, s1)
      | (Inr p, s1) \<Rightarrow> (Inr \<lparr>buffer_m = p, capacity_m = capacity\<rparr>, s1))"

text \<open>
  \<open>RawMemory(RawMemory&& other)\<close>: the new object and what is left of \<open>other\<close>
  (\<open>std::exchange\<close> with \<open>nullptr\<close> and \<open>0\<close>).
\<close>

definition RawMemory_move :: "RawMemory \<Rightarrow> RawMemory \<times> RawMemory" where
  "RawMemory_move other =
     (\<lparr>buffer_m = buffer_m other, capacity_m = capacity_m other\<rparr>,
      \<lparr>buffer_m = Null, capacity_m = 0\<rparr>)"

text \<open>\<open>~RawMemory()\<close>.\<close>

definition RawMemory_dtor :: "RawMemory \<Rightarrow> 'a state \<Rightarrow> 'a state" where
  "RawMemory_dtor m s = Deallocate (buffer_m m) s"

text \<open>\<open>operator+(offset)\<close> and the address of \<open>operator[](index)\<close>.\<close>

definition RawMemory_plus :: "RawMemory \<Rightarrow> nat \<Rightarrow> ptr" where
  "RawMemory_plus m offset = ptr_add (buffer_m m) offset"

definition RawMemory_index :: "RawMemory \<Rightarrow> nat \<Rightarrow> ptr" where
  "RawMemory_index m index = ptr_add (buffer_m m) index"

text \<open>\<open>Swap(other)\<close>: the two objects after the call.\<close>

definition RawMemory_Swap :: "RawMemory \<Rightarrow> RawMemory \<Rightarrow> RawMemory \<times> RawMemory" where
  "RawMemory_Swap m other =
     (m\<lparr>buffer_m := buffer_m other, capacity_m := capacity_m other\<rparr>,
      other\<lparr>buffer_m := buffer_m m, capacity_m := capacity_m m\<rparr>)"

definition GetAddress :: "RawMemory \<Rightarrow> ptr" where
  "GetAddress m = buffer_m m"

definition RawMemory_Capacity :: "RawMemory \<Rightarrow> nat" where
  "RawMemory_Capacity m = capacity_m m"

subsection \<open>\<open>Vector<T>\<close>: accessors\<close>

definition set_data :: "vref \<Rightarrow> RawMemory \<Rightarrow> 'a state \<Rightarrow> 'a state" where
  "set_data this d s = s\<lparr>objs := (objs s)(this := (objs s this)\<lparr>data_m := d\<rparr>)\<rparr>"

definition set_size :: "vref \<Rightarrow> nat \<Rightarrow> 'a state \<Rightarrow> 'a state" where
  "set_size this n s = s\<lparr>objs := (objs s)(this := (objs s this)\<lparr>size_m := n\<rparr>)\<rparr>"

definition Size :: "vref \<Rightarrow> 'a state \<Rightarrow> nat" where
  "Size this s = size_m (objs s this)"

definition Capacity :: "vref \<Rightarrow> 'a state \<Rightarrow> nat" where
  "Capacity this s = RawMemory_Capacity (data_m (objs s this))"

definition begin_it :: "vref \<Rightarrow> 'a state \<Rightarrow> ptr" where
  "begin_it this s = GetAddress (data_m (objs s this))"

definition end_it :: "vref \<Rightarrow> 'a state \<Rightarrow> ptr" where
  "end_it this s = ptr_add (GetAddress (data_m (objs s this))) (size_m (objs s this))"

text \<open>\<open>operator[](index)\<close>, read.\<close>

definition at :: "vref \<Rightarrow> nat \<Rightarrow> 'a state \<Rightarrow> 'a slot" where
  "at this index s = rd s (RawMemory_index (data_m (objs s this)) index)"

text \<open>\<open>data_.Swap(other.data_)\<close> on two stored objects, which may be the same one.\<close>

definition data_Swap :: "vref \<Rightarrow> vref \<Rightarrow> 'a state \<Rightarrow> 'a state" where
  "data_Swap this other s =
     (case RawMemory_Swap (data_m (objs s this)) (data_m (objs s other)) of
        (a, b) \<Rightarrow> set_data other b (set_data this a s))"

text \<open>\<open>void Swap(Vector& other) noexcept\<close>.\<close>

definition Swap :: "vref \<Rightarrow> vref \<Rightarrow> 'a state \<Rightarrow> 'a state" where
  "Swap this other s =
     (let s1 = data_Swap this other s;
          n = size_m (objs s1 this);
          m = size_m (objs s1 other)
      in set_size other n (set_size this m s1))"

subsection \<open>Construction and destruction\<close>

text \<open>\<open>Vector() = default\<close>, constructing the object at reference \<open>this\<close>.\<close>

definition Vector_default :: "vref \<Rightarrow> 'a state \<Rightarrow> 'a state" where
  "Vector_default this s =
     s\<lparr>objs := (objs s)(this := \<lparr>data_m = RawMemory_default, size_m = 0\<rparr>)\<rparr>"

text \<open>\<open>explicit Vector(size_t size)\<close>.\<close>

definition Vector_sized :: "'a elem_type \<Rightarrow> vref \<Rightarrow> nat \<Rightarrow> 'a state \<Rightarrow> (error + unit) \<times> 'a state" where
  "Vector_sized T this n s =
     (case RawMemory_ctor n s of
        (Inl e, s1) \<Rightarrow> (Inl e, s1)
      | (Inr d, s1) \<Rightarrow>
          (let s2 = s1\<lparr>objs := (objs s1)(this := \<lparr>data_m = d, size_m = n\<rparr>)\<rparr>
           in (Inr (), uninitialized_value_construct_n T (begin_it this s2) n s2)))"

text \<open>
  \<open>Vector(const Vector& other)\<close>. When a copy raises, the member \<open>data_\<close>, already
  constructed, is destroyed as the exception leaves the constructor.
\<close>

definition Vector_copy :: "'a elem_type \<Rightarrow> vref \<Rightarrow> vref \<Rightarrow> 'a state \<Rightarrow> (error + unit) \<times> 'a state" where
  "Vector_copy T this other s =
     (case RawMemory_ctor (size_m (objs s other)) s of
        (Inl e, s1) \<Rightarrow> (Inl e, s1)
      | (Inr d, s1) \<Rightarrow>
          (let s2 = s1\<lparr>objs := (objs s1)(this := \<lparr>data_m = d, size_m = size_m (objs s1 other)\<rparr>)\<rparr>
           in (case uninitialized_copy_n T (begin_it other s2) (size_m (objs s2 other))
                       (begin_it this s2) s2 of
                 (Inl e, s3) \<Rightarrow> (Inl e, RawMemory_dtor (data_m (objs s3 this)) s3)
               | (Inr u, s3) \<Rightarrow> (Inr (), s3))))"

text \<open>
  \<open>Vector(Vector&& other)\<close>: the member initialisers \<open>data_(other.size_)\<close> and
  \<open>size_(other.size_)\<close>, then the body \<open>data_.Swap(other.data_); other.size_ = 0;\<close>.
\<close>

definition Vector_move :: "vref \<Rightarrow> vref \<Rightarrow> 'a state \<Rightarrow> (error + unit) \<times> 'a state" where
  "Vector_move this other s =
     (case RawMemory_ctor (size_m (objs s other)) s of
        (Inl e, s1) \<Rightarrow> (Inl e, s1)
      | (Inr d, s1) \<Rightarrow>
          (let s2 = s1\<lparr>objs := (objs s1)(this := \<lparr>data_m = d, size_m = size_m (objs s1 other)\<rparr>)\<rparr>;
               s3 = data_Swap this other s2
           in (Inr (), set_size other 0 s3)))"

text \<open>\<open>~Vector()\<close>, followed by the destructor of the member \<open>data_\<close>.\<close>

definition Vector_dtor :: "vref \<Rightarrow> 'a state \<Rightarrow> 'a state" where
  "Vector_dtor this s =
     (let s1 = destroy_n (begin_it this s) (size_m (objs s this)) s
      in RawMemory_dtor (data_m (objs s1 this)) s1)"

subsection \<open>Capacity and size\<close>

text \<open>\<open>void Reserve(size_t new_capacity)\<close>; \<open>new_data\<close> is released when its scope ends.\<close>

definition Reserve :: "'a elem_type \<Rightarrow> vref \<Rightarrow> nat \<Rightarrow> 'a state \<Rightarrow> (error + unit) \<times> 'a state" where
  "Reserve T this new_capacity s =
     (if new_capacity \<le> RawMemory_Capacity (data_m (objs s this)) then (Inr (), s)
      else
        (case RawMemory_ctor new_capacity s of
           (Inl e, s1) \<Rightarrow> (Inl e, s1)
         | (Inr new_data, s1) \<Rightarrow>
             (case relocate_n T (begin_it this s1) (size_m (objs s1 this)) (GetAddress new_data) s1 of
                (Inl e, s2) \<Rightarrow> (Inl e, RawMemory_dtor new_data s2)
              | (Inr u, s2) \<Rightarrow>
                  (let s3 = destroy_n (begin_it this s2) (size_m (objs s2 this)) s2
                   in (case RawMemory_Swap (data_m (objs s3 this)) new_data of
                         (d, new_data') \<Rightarrow>
                           (Inr (), RawMemory_dtor new_data' (set_data this d s3)))))))"

text \<open>\<open>void Resize(size_t new_size)\<close>.\<close>

definition Resize :: "'a elem_type \<Rightarrow> vref \<Rightarrow> nat \<Rightarrow> 'a state \<Rightarrow> (error + unit) \<times> 'a state" where
  "Resize T this new_size s =
     (if new_size > size_m (objs s this) then
        (case Reserve T this new_size s of
           (Inl e, s1) \<Rightarrow> (Inl e, s1)
         | (Inr u, s1) \<Rightarrow>
             (let s2 = uninitialized_value_construct_n T
                         (ptr_add (begin_it this s1) (size_m (objs s1 this)))
                         (new_size - size_m (objs s1 this)) s1
              in (Inr (), set_size this new_size s2)))
      else if new_size < size_m (objs s this) then
        (let s1 = destroy_n (ptr_add (begin_it this s) new_size)
                    (size_m (objs s this) - new_size) s
         in (Inr (), set_size this new_size s1))
      else (Inr (), set_size this new_size s))"

subsection \<open>Append\<close>

text \<open>
  The common body of \<open>EmplaceBack(Args&&...)\<close>, \<open>PushBack(const T&)\<close> and
  \<open>PushBack(T&&)\<close> (lines 303--354), which differ only in how the new element is
  constructed. It returns the address of the new element, which \<open>EmplaceBack\<close> hands
  back as a reference. No exception is caught: one raised by the construction of the new
  element or by the relocation leaves the function, and \<open>new_data\<close> is released on
  the way out (its destructor frees the block and destroys no element).
\<close>

definition append_new :: "'a elem_type \<Rightarrow> vref \<Rightarrow> 'a arg \<Rightarrow> 'a state \<Rightarrow> (error + ptr) \<times> 'a state" where
  "append_new T this v s =
     (if size_m (objs s this) = Capacity this s then
        (case RawMemory_ctor (if size_m (objs s this) = 0 then 1 else Capacity this s * 2) s of
           (Inl e, s1) \<Rightarrow> (Inl e, s1)
         | (Inr new_data, s1) \<Rightarrow>
             (let new_value = RawMemory_index new_data (size_m (objs s1 this))
              in (case construct_value T new_value v s1 of
                    (Inl e, s2) \<Rightarrow> (Inl e, RawMemory_dtor new_data s2)
                  | (Inr u, s2) \<Rightarrow>
                      (case relocate_n T (begin_it this s2) (size_m (objs s2 this))
                              (GetAddress new_data) s2 of
                         (Inl e, s3) \<Rightarrow> (Inl e, RawMemory_dtor new_data s3)
                       | (Inr u, s3) \<Rightarrow>
                           (let s4 = destroy_n (begin_it this s3) (size_m (objs s3 this)) s3
                            in (case RawMemory_Swap (data_m (objs s4 this)) new_data of
                                  (d, new_data') \<Rightarrow>
                                    (let s5 = RawMemory_dtor new_data' (set_data this d s4)
                                     in (Inr new_value,
                                         set_size this (size_m (objs s5 this) + 1) s5))))))))
      else
        (let new_value = RawMemory_index (data_m (objs s this)) (size_m (objs s this))
         in (case construct_value T new_value v s of
               (Inl e, s1) \<Rightarrow> (Inl e, s1)
             | (Inr u, s1) \<Rightarrow>
                 (Inr new_value, set_size this (size_m (objs s1 this) + 1) s1))))"

definition EmplaceBack :: "'a elem_type \<Rightarrow> vref \<Rightarrow> 'a arg \<Rightarrow> 'a state \<Rightarrow> (error + ptr) \<times> 'a state" where
  "EmplaceBack T this args s = append_new T this args s"

text \<open>\<open>void PushBack(const T& value)\<close>.\<close>

definition PushBack :: "'a elem_type \<Rightarrow> vref \<Rightarrow> 'a \<Rightarrow> 'a state \<Rightarrow> (error + unit) \<times> 'a state" where
  "PushBack T this x s =
     (case append_new T this (ByCopy x) s of
        (Inl e, s1) \<Rightarrow> (Inl e, s1)
      | (Inr p, s1) \<Rightarrow> (Inr (), s1))"

text \<open>\<open>void PushBack(T&& value)\<close>.\<close>

definition PushBack_rv :: "'a elem_type \<Rightarrow> vref \<Rightarrow> 'a \<Rightarrow> 'a state \<Rightarrow> (error + unit) \<times> 'a state" where
  "PushBack_rv T this x s =
     (case append_new T this (ByMove x) s of
        (Inl e, s1) \<Rightarrow> (Inl e, s1)
      | (Inr p, s1) \<Rightarrow> (Inr (), s1))"

text \<open>\<open>void PopBack() noexcept\<close>.\<close>

definition PopBack :: "vref \<Rightarrow> 'a state \<Rightarrow> 'a state" where
  "PopBack this s =
     (let s1 = destroy_at (RawMemory_index (data_m (objs s this)) (dec (size_m (objs s this)))) s
      in set_size this (dec (size_m (objs s1 this))) s1)"

subsection \<open>Positional insertion and removal\<close>

text \<open>
  The common body of \<open>Insert(const_iterator, const T&)\<close>, \<open>Insert(const_iterator, T&&)\<close>
  and \<open>Emplace(const_iterator, Args&&...)\<close> (lines 155--300). In the branch that
  reallocates, each of the two relocations stands in a \<open>try\<close> block whose handler
  destroys elements of the new block and does not rethrow: control continues after the
  handler, with the second relocation, the destruction of the old elements, the swap and
  the increment of \<open>size_\<close>.
\<close>

definition insert_new ::
  "'a elem_type \<Rightarrow> vref \<Rightarrow> ptr \<Rightarrow> 'a arg \<Rightarrow> 'a state \<Rightarrow> (error + ptr) \<times> 'a state" where
  "insert_new T this pos v s =
     (if pos = end_it this s then
        (case append_new T this v s of
           (Inl e, s1) \<Rightarrow> (Inl e, s1)
         | (Inr p, s1) \<Rightarrow> (Inr (ptr_sub (end_it this s1) 1), s1))
      else
        (let insert_idx = nat (ptr_diff pos (begin_it this s));
             idx_from_end = nat (ptr_diff (end_it this s) pos)
         in if size_m (objs s this) = Capacity this s then
              (case RawMemory_ctor (if size_m (objs s this) = 0 then 1 else Capacity this s * 2) s of
                 (Inl e, s1) \<Rightarrow> (Inl e, s1)
               | (Inr new_data, s1) \<Rightarrow>
                   (let temp_value = RawMemory_plus new_data insert_idx
                    in (case construct_value T temp_value v s1 of
                          (Inl e, s2) \<Rightarrow> (Inl e, RawMemory_dtor new_data s2)
                        | (Inr u, s2) \<Rightarrow>
                            (let s3 = (case relocate_n T (begin_it this s2) insert_idx
                                              (GetAddress new_data) s2 of
                                         (Inl e, s') \<Rightarrow> destroy_at temp_value s'
                                       | (Inr u, s') \<Rightarrow> s');
                                 s4 = (case relocate_n T
                                              (RawMemory_plus (data_m (objs s3 this)) insert_idx)
                                              idx_from_end
                                              (RawMemory_plus new_data (insert_idx + 1)) s3 of
                                         (Inl e, s') \<Rightarrow>
                                           destroy_n (GetAddress new_data) (insert_idx + 1) s'
                                       | (Inr u, s') \<Rightarrow> s');
                                 s5 = destroy_n (begin_it this s4) (size_m (objs s4 this)) s4
                             in (case RawMemory_Swap (data_m (objs s5 this)) new_data of
                                   (d, new_data') \<Rightarrow>
                                     (let s6 = RawMemory_dtor new_data' (set_data this d s5)
                                      in (Inr temp_value,
                                          set_size this (size_m (objs s6 this) + 1) s6)))))))
            else
              (case make_value T v of
                 Inl e \<Rightarrow> (Inl e, s)
               | Inr value_copy \<Rightarrow>
                   (case move_construct_from T
                           (RawMemory_index (data_m (objs s this)) (size_m (objs s this)))
                           (RawMemory_index (data_m (objs s this)) (dec (size_m (objs s this)))) s of
                      (Inl e, s1) \<Rightarrow> (Inl e, s1)
                    | (Inr u, s1) \<Rightarrow>
                        (let s2 = move_backward T (ptr_add (begin_it this s1) insert_idx)
                                    (ptr_sub (end_it this s1) 1) (end_it this s1) s1;
                             s3 = wr (RawMemory_index (data_m (objs s2 this)) insert_idx)
                                    (Live value_copy) s2
                         in (Inr (ptr_add (begin_it this s3) insert_idx),
                             set_size this (size_m (objs s3 this) + 1) s3))))))"

text \<open>\<open>iterator Insert(const_iterator pos, const T& value)\<close>.\<close>

definition Insert :: "'a elem_type \<Rightarrow> vref \<Rightarrow> ptr \<Rightarrow> 'a \<Rightarrow> 'a state \<Rightarrow> (error + ptr) \<times> 'a state" where
  "Insert T this pos x s = insert_new T this pos (ByCopy x) s"

text \<open>\<open>iterator Insert(const_iterator pos, T&& value)\<close>.\<close>

definition Insert_rv :: "'a elem_type \<Rightarrow> vref \<Rightarrow> ptr \<Rightarrow> 'a \<Rightarrow> 'a state \<Rightarrow> (error + ptr) \<times> 'a state" where
  "Insert_rv T this pos x s = insert_new T this pos (ByMove x) s"

text \<open>\<open>iterator Emplace(const_iterator pos, Args&&... args)\<close>.\<close>

definition Emplace :: "'a elem_type \<Rightarrow> vref \<Rightarrow> ptr \<Rightarrow> 'a arg \<Rightarrow> 'a state \<Rightarrow> (error + ptr) \<times> 'a state" where
  "Emplace T this pos args s = insert_new T this pos args s"

text \<open>\<open>iterator Erase(const_iterator pos)\<close>.\<close>

definition Erase :: "'a elem_type \<Rightarrow> vref \<Rightarrow> ptr \<Rightarrow> 'a state \<Rightarrow> ptr \<times> 'a state" where
  "Erase T this pos s =
     (let erase_idx = nat (ptr_diff pos (begin_it this s));
          s1 = std_move T (ptr_add (begin_it this s) (erase_idx + 1)) (end_it this s)
                 (ptr_add (begin_it this s) erase_idx) s;
          s2 = destroy_at (ptr_sub (end_it this s1) 1) s1;
          s3 = set_size this (dec (size_m (objs s2 this))) s2
      in (ptr_add (begin_it this s3) erase_idx, s3))"

subsection \<open>Assignment\<close>

text \<open>The loop \<open>for (size_t i = 0; i < n; ++i) data_[i] = rhs.data_[i];\<close> from index \<open>i\<close> on.\<close>

function assign_loop :: "vref \<Rightarrow> vref \<Rightarrow> nat \<Rightarrow> nat \<Rightarrow> 'a state \<Rightarrow> 'a state" where
  "assign_loop this rhs i n s =
     (if i < n then
        assign_loop this rhs (i + 1) n
          (copy_assign (RawMemory_index (data_m (objs s this)) i)
             (RawMemory_index (data_m (objs s rhs)) i) s)
      else s)"
  by pat_completeness auto
termination
  by (relation "measure (\<lambda>(this, rhs, i, n, s). n - i)") auto

declare assign_loop.simps [simp del]

text \<open>
  \<open>Vector& operator=(const Vector& rhs)\<close>. The local \<open>rhs_copy\<close> is constructed at the
  next free object reference and destroyed when its scope ends.
\<close>

definition assign_copy :: "'a elem_type \<Rightarrow> vref \<Rightarrow> vref \<Rightarrow> 'a state \<Rightarrow> (error + unit) \<times> 'a state" where
  "assign_copy T this rhs s =
     (if size_m (objs s rhs) > RawMemory_Capacity (data_m (objs s this)) then
        (let rhs_copy = next_ref s;
             s0 = s\<lparr>next_ref := rhs_copy + 1\<rparr>
         in (case Vector_copy T rhs_copy rhs s0 of
               (Inl e, s1) \<Rightarrow> (Inl e, s1\<lparr>next_ref := rhs_copy\<rparr>)
             | (Inr u, s1) \<Rightarrow>
                 (let s2 = Swap this rhs_copy s1;
                      s3 = Vector_dtor rhs_copy s2
                  in (Inr (), s3\<lparr>next_ref := rhs_copy\<rparr>))))
      else if size_m (objs s rhs) < size_m (objs s this) then
        (let s1 = assign_loop this rhs 0 (size_m (objs s rhs)) s;
             s2 = destroy_n (ptr_add (begin_it this s1) (size_m (objs s1 rhs)))
                    (size_m (objs s1 this) - size_m (objs s1 rhs)) s1
         in (Inr (), set_size this (size_m (objs s2 rhs)) s2))
      else
        (let s1 = assign_loop this rhs 0 (size_m (objs s this)) s
         in (case uninitialized_copy_n T (ptr_add (begin_it rhs s1) (size_m (objs s1 this)))
                     (size_m (objs s1 rhs) - size_m (objs s1 this))
                     (ptr_add (begin_it this s1) (size_m (objs s1 this))) s1 of
               (Inl e, s2) \<Rightarrow> (Inl e, s2)
             | (Inr u, s2) \<Rightarrow> (Inr (), set_size this (size_m (objs s2 rhs)) s2))))"

text \<open>\<open>Vector& operator=(Vector&& rhs)\<close>: \<open>data_.Swap(rhs.data_); rhs.size_ = 0;\<close>.\<close>

definition assign_move :: "vref \<Rightarrow> vref \<Rightarrow> 'a state \<Rightarrow> 'a state" where
  "assign_move this rhs s = set_size rhs 0 (data_Swap this rhs s)"

subsection \<open>Observations\<close>

text \<open>
  The content of a sequence as its interface shows it: the slots read by
  \<open>operator[]\<close> at \<open>0, ..., Size() - 1\<close>.
\<close>

definition elems :: "vref \<Rightarrow> 'a state \<Rightarrow> 'a slot list" where
  "elems this s = map (\<lambda>i. at this i s) [0..<Size this s]"

text \<open>
  The invariant of a sequence: \<open>size \<le> capacity\<close>; the buffer is \<open>nullptr\<close> with
  capacity 0, or the start of an allocated block of \<open>capacity\<close> slots whose first
  \<open>size\<close> slots are live and whose other slots are raw.
\<close>

definition vec_inv :: "vref \<Rightarrow> 'a state \<Rightarrow> bool" where
  "vec_inv this s =
     (size_m (objs s this) \<le> capacity_m (data_m (objs s this)) \<and>
      (case buffer_m (data_m (objs s this)) of
         Null \<Rightarrow> capacity_m (data_m (objs s this)) = 0
       | Ptr a i \<Rightarrow>
           i = 0 \<and> a < next_addr s \<and>
           (case mem s a of
              None \<Rightarrow> False
            | Some b \<Rightarrow>
                length b = capacity_m (data_m (objs s this)) \<and>
                list_all is_Live (take (size_m (objs s this)) b) \<and>
                list_all (\<lambda>x. x = Uninit) (drop (size_m (objs s this)) b))))"

text \<open>An empty store with room for \<open>n\<close> slots, holding default-constructed sequences.\<close>

definition init :: "nat \<Rightarrow> 'a state" where
  "init n =
     \<lparr>objs = (\<lambda>r. \<lparr>data_m = RawMemory_default, size_m = 0\<rparr>),
      mem = (\<lambda>a. None), next_addr = 0, avail = n, next_ref = 2\<rparr>"

subsection \<open>Auxiliary notions for the proofs\<close>

fun copy_raises_slot :: "'a elem_type \<Rightarrow> 'a slot \<Rightarrow> bool" where
  "copy_raises_slot T Uninit = False"
| "copy_raises_slot T (Live x) = copy_raises T x"

fun move_raises_slot :: "'a elem_type \<Rightarrow> 'a slot \<Rightarrow> bool" where
  "move_raises_slot T Uninit = False"
| "move_raises_slot T (Live x) = (\<not> nothrow_move_constructible T \<and> move_raises T x)"

fun moved_slot :: "'a elem_type \<Rightarrow> 'a slot \<Rightarrow> 'a slot" where
  "moved_slot T Uninit = Uninit"
| "moved_slot T (Live x) = Live (moved_from T x)"

definition relocation_raises :: "'a elem_type \<Rightarrow> 'a slot \<Rightarrow> bool" where
  "relocation_raises T x =
     (if nothrow_move_constructible T \<or> \<not> copy_constructible T
      then move_raises_slot T x else copy_raises_slot T x)"

definition relocated_from :: "'a elem_type \<Rightarrow> 'a slot \<Rightarrow> 'a slot" where
  "relocated_from T x =
     (if nothrow_move_constructible T \<or> \<not> copy_constructible T then moved_slot T x else x)"

definition T_int :: "int elem_type" where
  "T_int = \<lparr>nothrow_move_constructible = True, copy_constructible = True,
     copy_raises = (\<lambda>x. False), move_raises = (\<lambda>x. False), moved_from = (\<lambda>x. x), value_init = 0\<rparr>"

definition T_guarded :: "int elem_type" where
  "T_guarded = \<lparr>nothrow_move_constructible = False, copy_constructible = True,
     copy_raises = (\<lambda>x. x = 1), move_raises = (\<lambda>x. False), moved_from = (\<lambda>x. x), value_init = 0\<rparr>"

definition s123 :: "int state" where
  "s123 = snd (PushBack T_int 0 3 (snd (PushBack T_int 0 2 (snd (PushBack T_int 0 1 (init 16))))))"

definition g12 :: "int state" where
  "g12 = snd (PushBack_rv T_guarded 0 2 (snd (PushBack_rv T_guarded 0 1 (snd (Reserve T_guarded 0 2 (init 16))))))"

text \<open>A run of \<open>PushBack\<close> calls; an exception ends the run.\<close>

fun push_all :: "'a elem_type \<Rightarrow> vref \<Rightarrow> 'a list \<Rightarrow> 'a state \<Rightarrow> (error + unit) \<times> 'a state" where
  "push_all T this [] s = (Inr (), s)"
| "push_all T this (x # xs) s =
     (case PushBack T this x s of
        (Inl e, s1) \<Rightarrow> (Inl e, s1)
      | (Inr u, s1) \<Rightarrow> push_all T this xs s1)"

text \<open>
  The growth policy in the spec's words: when an append needs more capacity than is
  available, the new block has \<open>max(1, capacity * 2)\<close> slots. The capacity after \<open>n\<close>
  appends to a sequence of size \<open>sz\<close> and capacity \<open>cap\<close>:
\<close>

fun spec_capacity_after :: "nat \<Rightarrow> nat \<Rightarrow> nat \<Rightarrow> nat" where
  "spec_capacity_after sz cap 0 = cap"
| "spec_capacity_after sz cap (Suc n) =
     spec_capacity_after (sz + 1) (if cap < sz + 1 then max 1 (cap * 2) else cap) n"

section \<open>Auxiliary facts\<close>

lemma wr_fields [simp]:
  "objs (wr p x s) = objs s" "next_addr (wr p x s) = next_addr s"
  "avail (wr p x s) = avail s" "next_ref (wr p x s) = next_ref s"
  by (simp_all add: wr_def split: ptr.splits option.splits)

lemma rd_Ptr: "mem s a = Some b \<Longrightarrow> rd s (Ptr a i) = (if i < length b then b ! i else Uninit)"
  by (simp add: rd_def)

lemma wr_Ptr: "mem s a = Some b \<Longrightarrow> wr (Ptr a i) x s = s\<lparr>mem := (mem s)(a \<mapsto> b[i := x])\<rparr>"
  by (simp add: wr_def)

lemma mem_same: "mem s b = Some B \<Longrightarrow> s\<lparr>mem := (mem s)(b \<mapsto> B)\<rparr> = s"
  by (simp add: map_upd_triv)

lemma seg_step:
  assumes "i < length A" "j < length B" "A ! i = y"
  shows "take (Suc j) (B[j := y]) @ take n (drop (Suc i) A) @ drop (Suc j + n) (B[j := y])
         = take j B @ take (Suc n) (drop i A) @ drop (j + Suc n) B"
proof -
  have "take (Suc j) (B[j := y]) = take j B @ [y]"
    using assms by (simp add: take_Suc_conv_app_nth)
  moreover have "take (Suc n) (drop i A) = y # take n (drop (Suc i) A)"
    using assms by (simp add: Cons_nth_drop_Suc [symmetric])
  ultimately show ?thesis by simp
qed

lemma mem_upd_upd: "s\<lparr>mem := (mem s)(b \<mapsto> X)\<rparr>\<lparr>mem := (mem (s\<lparr>mem := (mem s)(b \<mapsto> X)\<rparr>))(b \<mapsto> Y)\<rparr> = s\<lparr>mem := (mem s)(b \<mapsto> Y)\<rparr>"
  by simp

lemma uninitialized_copy_n_ok:
  assumes "mem s a = Some A" "mem s b = Some B" "a \<noteq> b"
    "i + n \<le> length A" "j + n \<le> length B"
    "list_all is_Live (take n (drop i A))"
    "list_all (\<lambda>x. \<not> copy_raises_slot T x) (take n (drop i A))"
  shows "uninitialized_copy_n T (Ptr a i) n (Ptr b j) s =
           (Inr (), s\<lparr>mem := (mem s)(b \<mapsto> take j B @ take n (drop i A) @ drop (j + n) B)\<rparr>)"
  using assms
proof (induction n arbitrary: i j B s)
  case 0
  have e: "take j B @ take 0 (drop i A) @ drop (j + 0) B = B" by simp
  show ?case by (simp only: e mem_same [OF "0.prems"(2)] uninitialized_copy_n.simps)
next
  case (Suc n)
  from Suc.prems have iA: "i < length A" and jB: "j < length B" by simp_all
  from Suc.prems iA obtain x where x: "A ! i = Live x" "\<not> copy_raises T x"
    by (cases "A ! i") (auto simp: take_Suc_conv_app_nth Cons_nth_drop_Suc [symmetric])
  let ?s1 = "s\<lparr>mem := (mem s)(b \<mapsto> B[j := Live x])\<rparr>"
  have step: "copy_construct_from T (Ptr b j) (Ptr a i) s = (Inr (), ?s1)"
    using Suc.prems iA x by (simp add: copy_construct_from_def copy_construct_def rd_Ptr wr_Ptr)
  have tl: "list_all is_Live (take n (drop (Suc i) A))"
    "list_all (\<lambda>x. \<not> copy_raises_slot T x) (take n (drop (Suc i) A))"
    using Suc.prems iA by (simp_all add: Cons_nth_drop_Suc [symmetric])
  have "uninitialized_copy_n T (Ptr a (Suc i)) n (Ptr b (Suc j)) ?s1 =
     (Inr (), ?s1\<lparr>mem := (mem ?s1)(b \<mapsto> take (Suc j) (B[j := Live x]) @ take n (drop (Suc i) A) @ drop (Suc j + n) (B[j := Live x]))\<rparr>)"
    using Suc.prems tl by (intro Suc.IH) simp_all
  then have IH: "uninitialized_copy_n T (Ptr a (Suc i)) n (Ptr b (Suc j)) ?s1 =
     (Inr (), s\<lparr>mem := (mem s)(b \<mapsto> take j B @ take (Suc n) (drop i A) @ drop (j + Suc n) B)\<rparr>)"
    unfolding seg_step [OF iA jB x(1)] mem_upd_upd .
  show ?case
    by (simp only: uninitialized_copy_n.simps ptr_add.simps step prod.case sum.case
          Suc_eq_plus1 [symmetric] IH)
qed

lemma uninitialized_copy_n_raises:
  assumes "mem s a = Some A" "mem s b = Some B" "a \<noteq> b"
    "i + n \<le> length A" "j + n \<le> length B"
    "list_all is_Live (take n (drop i A))"
    "\<not> list_all (\<lambda>x. \<not> copy_raises_slot T x) (take n (drop i A))"
  shows "fst (uninitialized_copy_n T (Ptr a i) n (Ptr b j) s) = Inl CtorFailure"
  using assms
proof (induction n arbitrary: i j B s)
  case 0
  then show ?case by simp
next
  case (Suc n)
  from Suc.prems have iA: "i < length A" and jB: "j < length B" by simp_all
  from Suc.prems iA obtain x where x: "A ! i = Live x"
    by (cases "A ! i") (auto simp: Cons_nth_drop_Suc [symmetric])
  show ?case
  proof (cases "copy_raises T x")
    case True
    then show ?thesis
      using Suc.prems iA x by (simp add: copy_construct_from_def copy_construct_def rd_Ptr)
  next
    case False
    let ?s1 = "s\<lparr>mem := (mem s)(b \<mapsto> B[j := Live x])\<rparr>"
    have step: "copy_construct_from T (Ptr b j) (Ptr a i) s = (Inr (), ?s1)"
      using Suc.prems iA x False
      by (simp add: copy_construct_from_def copy_construct_def rd_Ptr wr_Ptr)
    have tl: "list_all is_Live (take n (drop (Suc i) A))"
      "\<not> list_all (\<lambda>x. \<not> copy_raises_slot T x) (take n (drop (Suc i) A))"
      using Suc.prems iA x False by (simp_all add: Cons_nth_drop_Suc [symmetric])
    have "fst (uninitialized_copy_n T (Ptr a (Suc i)) n (Ptr b (Suc j)) ?s1) = Inl CtorFailure"
      using Suc.prems tl by (intro Suc.IH [where B = "B[j := Live x]"]) simp_all
    then show ?thesis
      using step by (auto split: prod.splits sum.splits)
  qed
qed

lemma destroy_n_Null [simp]: "destroy_n Null n s = s"
  by (induction n arbitrary: s) (simp_all add: destroy_at_def wr_def)

lemma rep_step:
  assumes "i < length A"
  shows "take (Suc i) (A[i := y]) @ replicate n y @ drop (Suc i + n) (A[i := y])
         = take i A @ replicate (Suc n) y @ drop (i + Suc n) A"
proof -
  have "take (Suc i) (A[i := y]) = take i A @ [y]"
    using assms by (simp add: take_Suc_conv_app_nth)
  then show ?thesis by (simp add: replicate_app_Cons_same)
qed

lemma destroy_n_Ptr:
  assumes "mem s a = Some A" "i + n \<le> length A"
  shows "destroy_n (Ptr a i) n s =
           s\<lparr>mem := (mem s)(a \<mapsto> take i A @ replicate n Uninit @ drop (i + n) A)\<rparr>"
  using assms
proof (induction n arbitrary: i A s)
  case 0
  have e: "take i A @ replicate 0 Uninit @ drop (i + 0) A = A" by simp
  show ?case by (simp only: e mem_same [OF "0.prems"(1)] destroy_n.simps)
next
  case (Suc n)
  from Suc.prems have iA: "i < length A" by simp
  let ?s1 = "s\<lparr>mem := (mem s)(a \<mapsto> A[i := Uninit])\<rparr>"
  have step: "destroy_at (Ptr a i) s = ?s1"
    using Suc.prems by (simp add: destroy_at_def wr_Ptr)
  have "destroy_n (Ptr a (Suc i)) n ?s1 =
     ?s1\<lparr>mem := (mem ?s1)(a \<mapsto> take (Suc i) (A[i := Uninit]) @ replicate n Uninit @ drop (Suc i + n) (A[i := Uninit]))\<rparr>"
    using Suc.prems by (intro Suc.IH) simp_all
  then have IH: "destroy_n (Ptr a (Suc i)) n ?s1 =
     s\<lparr>mem := (mem s)(a \<mapsto> take i A @ replicate (Suc n) Uninit @ drop (i + Suc n) A)\<rparr>"
    unfolding rep_step [OF iA] mem_upd_upd .
  show ?case
    by (simp only: destroy_n.simps ptr_add.simps step Suc_eq_plus1 [symmetric] IH)
qed

lemma uninitialized_value_construct_n_Ptr:
  assumes "mem s a = Some A" "i + n \<le> length A"
  shows "uninitialized_value_construct_n T (Ptr a i) n s =
           s\<lparr>mem := (mem s)(a \<mapsto> take i A @ replicate n (Live (value_init T)) @ drop (i + n) A)\<rparr>"
  using assms
proof (induction n arbitrary: i A s)
  case 0
  have e: "take i A @ replicate 0 (Live (value_init T)) @ drop (i + 0) A = A" by simp
  show ?case by (simp only: e mem_same [OF "0.prems"(1)] uninitialized_value_construct_n.simps)
next
  case (Suc n)
  from Suc.prems have iA: "i < length A" by simp
  let ?y = "Live (value_init T)"
  let ?s1 = "s\<lparr>mem := (mem s)(a \<mapsto> A[i := ?y])\<rparr>"
  have step: "wr (Ptr a i) ?y s = ?s1"
    using Suc.prems by (simp add: wr_Ptr)
  have "uninitialized_value_construct_n T (Ptr a (Suc i)) n ?s1 =
     ?s1\<lparr>mem := (mem ?s1)(a \<mapsto> take (Suc i) (A[i := ?y]) @ replicate n ?y @ drop (Suc i + n) (A[i := ?y]))\<rparr>"
    using Suc.prems by (intro Suc.IH) simp_all
  then have IH: "uninitialized_value_construct_n T (Ptr a (Suc i)) n ?s1 =
     s\<lparr>mem := (mem s)(a \<mapsto> take i A @ replicate (Suc n) ?y @ drop (i + Suc n) A)\<rparr>"
    unfolding rep_step [OF iA] mem_upd_upd .
  show ?case
    by (simp only: uninitialized_value_construct_n.simps ptr_add.simps step Suc_eq_plus1 [symmetric] IH)
qed



lemma mem_upd2:
  "s\<lparr>mem := (mem s)(a \<mapsto> A1, b \<mapsto> B1)\<rparr>\<lparr>mem := (mem (s\<lparr>mem := (mem s)(a \<mapsto> A1, b \<mapsto> B1)\<rparr>))(a \<mapsto> X, b \<mapsto> Y)\<rparr>
   = s\<lparr>mem := (mem s)(a \<mapsto> X, b \<mapsto> Y)\<rparr>"
proof -
  have "((mem s)(a \<mapsto> A1, b \<mapsto> B1))(a \<mapsto> X, b \<mapsto> Y) = (mem s)(a \<mapsto> X, b \<mapsto> Y)"
    by (rule ext) simp
  then show ?thesis by simp
qed

lemma mem_same2: "mem s a = Some A \<Longrightarrow> mem s b = Some B \<Longrightarrow> s\<lparr>mem := (mem s)(a \<mapsto> A, b \<mapsto> B)\<rparr> = s"
proof -
  assume "mem s a = Some A" "mem s b = Some B"
  then have "(mem s)(a \<mapsto> A, b \<mapsto> B) = mem s" by (intro ext) simp
  then show ?thesis by simp
qed

lemma mv_step:
  assumes "i < length A"
  shows "take (Suc i) (A[i := f (A ! i)]) @ map f (take n (drop (Suc i) (A[i := f (A ! i)]))) @
           drop (Suc i + n) (A[i := f (A ! i)])
         = take i A @ map f (take (Suc n) (drop i A)) @ drop (i + Suc n) A"
proof -
  have "take (Suc i) (A[i := f (A ! i)]) = take i A @ [f (A ! i)]"
    using assms by (simp add: take_Suc_conv_app_nth)
  moreover have "take (Suc n) (drop i A) = A ! i # take n (drop (Suc i) A)"
    using assms by (simp add: Cons_nth_drop_Suc [symmetric])
  ultimately show ?thesis by simp
qed

lemma seg_step2:
  assumes "i < length A" "j < length B" "A ! i = y"
  shows "take (Suc j) (B[j := y]) @ take n (drop (Suc i) (A[i := z])) @ drop (Suc j + n) (B[j := y])
         = take j B @ take (Suc n) (drop i A) @ drop (j + Suc n) B"
  using seg_step [OF assms] by simp

lemma uninitialized_move_n_ok:
  assumes "mem s a = Some A" "mem s b = Some B" "a \<noteq> b"
    "i + n \<le> length A" "j + n \<le> length B"
    "list_all is_Live (take n (drop i A))"
    "list_all (\<lambda>x. \<not> move_raises_slot T x) (take n (drop i A))"
  shows "uninitialized_move_n T (Ptr a i) n (Ptr b j) s =
           (Inr (), s\<lparr>mem := (mem s)
              (a \<mapsto> take i A @ map (moved_slot T) (take n (drop i A)) @ drop (i + n) A,
               b \<mapsto> take j B @ take n (drop i A) @ drop (j + n) B)\<rparr>)"
  using assms
proof (induction n arbitrary: i j A B s)
  case 0
  have e: "take i A @ map (moved_slot T) (take 0 (drop i A)) @ drop (i + 0) A = A"
    "take j B @ take 0 (drop i A) @ drop (j + 0) B = B" by simp_all
  show ?case
    by (simp only: e mem_same2 [OF "0.prems"(1,2)] uninitialized_move_n.simps)
next
  case (Suc n)
  from Suc.prems have iA: "i < length A" and jB: "j < length B" by simp_all
  from Suc.prems iA obtain x where x: "A ! i = Live x" "\<not> (\<not> nothrow_move_constructible T \<and> move_raises T x)"
    by (cases "A ! i") (auto simp: Cons_nth_drop_Suc [symmetric])
  have mx: "Live (moved_from T x) = moved_slot T (A ! i)" using x by simp
  let ?A1 = "A[i := moved_slot T (A ! i)]"
  let ?B1 = "B[j := Live x]"
  let ?s1 = "s\<lparr>mem := (mem s)(a \<mapsto> ?A1, b \<mapsto> ?B1)\<rparr>"
  have step: "move_construct_from T (Ptr b j) (Ptr a i) s = (Inr (), ?s1)"
    using Suc.prems iA x by (simp add: move_construct_from_def rd_Ptr wr_Ptr)
  have tl: "list_all is_Live (take n (drop (Suc i) ?A1))"
    "list_all (\<lambda>x. \<not> move_raises_slot T x) (take n (drop (Suc i) ?A1))"
    using Suc.prems iA by (simp_all add: Cons_nth_drop_Suc [symmetric])
  have "uninitialized_move_n T (Ptr a (Suc i)) n (Ptr b (Suc j)) ?s1 =
     (Inr (), ?s1\<lparr>mem := (mem ?s1)
        (a \<mapsto> take (Suc i) ?A1 @ map (moved_slot T) (take n (drop (Suc i) ?A1)) @ drop (Suc i + n) ?A1,
         b \<mapsto> take (Suc j) ?B1 @ take n (drop (Suc i) ?A1) @ drop (Suc j + n) ?B1)\<rparr>)"
    using Suc.prems tl by (intro Suc.IH) simp_all
  then have IH: "uninitialized_move_n T (Ptr a (Suc i)) n (Ptr b (Suc j)) ?s1 =
     (Inr (), s\<lparr>mem := (mem s)
        (a \<mapsto> take i A @ map (moved_slot T) (take (Suc n) (drop i A)) @ drop (i + Suc n) A,
         b \<mapsto> take j B @ take (Suc n) (drop i A) @ drop (j + Suc n) B)\<rparr>)"
    unfolding mv_step [OF iA] seg_step2 [OF iA jB x(1)] mem_upd2 .
  show ?case
    by (simp only: uninitialized_move_n.simps ptr_add.simps step prod.case sum.case
          Suc_eq_plus1 [symmetric] IH)
qed

lemma uninitialized_move_n_raises:
  assumes "mem s a = Some A" "mem s b = Some B" "a \<noteq> b"
    "i + n \<le> length A" "j + n \<le> length B"
    "list_all is_Live (take n (drop i A))"
    "\<not> list_all (\<lambda>x. \<not> move_raises_slot T x) (take n (drop i A))"
  shows "fst (uninitialized_move_n T (Ptr a i) n (Ptr b j) s) = Inl CtorFailure"
  using assms
proof (induction n arbitrary: i j A B s)
  case 0
  then show ?case by simp
next
  case (Suc n)
  from Suc.prems have iA: "i < length A" and jB: "j < length B" by simp_all
  from Suc.prems iA obtain x where x: "A ! i = Live x"
    by (cases "A ! i") (auto simp: Cons_nth_drop_Suc [symmetric])
  show ?case
  proof (cases "\<not> nothrow_move_constructible T \<and> move_raises T x")
    case True
    then show ?thesis
      using Suc.prems iA x by (simp add: move_construct_from_def rd_Ptr)
  next
    case False
    let ?A1 = "A[i := moved_slot T (A ! i)]"
    let ?B1 = "B[j := Live x]"
    let ?s1 = "s\<lparr>mem := (mem s)(a \<mapsto> ?A1, b \<mapsto> ?B1)\<rparr>"
    have step: "move_construct_from T (Ptr b j) (Ptr a i) s = (Inr (), ?s1)"
      using Suc.prems iA x False by (simp add: move_construct_from_def rd_Ptr wr_Ptr)
    have tl: "list_all is_Live (take n (drop (Suc i) ?A1))"
      "\<not> list_all (\<lambda>x. \<not> move_raises_slot T x) (take n (drop (Suc i) ?A1))"
      using Suc.prems iA x False by (simp_all add: Cons_nth_drop_Suc [symmetric])
    have "fst (uninitialized_move_n T (Ptr a (Suc i)) n (Ptr b (Suc j)) ?s1) = Inl CtorFailure"
      using Suc.prems tl by (intro Suc.IH [where A = ?A1 and B = ?B1]) simp_all
    then show ?thesis
      using step by (auto split: prod.splits sum.splits)
  qed
qed

lemma move_n_inplace_list:
  assumes "Suc (Suc j) + n \<le> length A"
  shows
   "take (Suc j) (A[Suc j := z, j := A ! Suc j]) @
    take n (drop (Suc (Suc j)) (A[Suc j := z, j := A ! Suc j])) @
    [if n = 0 then (A[Suc j := z, j := A ! Suc j]) ! Suc j
     else f ((A[Suc j := z, j := A ! Suc j]) ! (Suc j + n))] @
    drop (Suc (Suc j) + n) (A[Suc j := z, j := A ! Suc j])
    = take j A @ take (Suc n) (drop (Suc j) A) @
      [if Suc n = 0 then A ! j else (if n = 0 then z else f (A ! (j + Suc n)))] @
      drop (Suc j + Suc n) A"
proof -
  let ?A1 = "A[Suc j := z, j := A ! Suc j]"
  have 1: "take (Suc j) ?A1 = take j A @ [A ! Suc j]"
    using assms by (simp add: take_Suc_conv_app_nth)
  have 2: "take (Suc n) (drop (Suc j) A) = A ! Suc j # take n (drop (Suc (Suc j)) A)"
    using assms by (simp add: Cons_nth_drop_Suc [symmetric])
  have 3: "n = 0 \<Longrightarrow> ?A1 ! Suc j = z" using assms by simp
  have 4: "n \<noteq> 0 \<Longrightarrow> ?A1 ! (Suc j + n) = A ! (j + Suc n)" using assms by simp
  show ?thesis using 1 2 3 4 by simp
qed

lemma move_n_inplace:
  assumes "mem s a = Some A" "Suc j + n \<le> length A"
    "list_all is_Live (take n (drop (Suc j) A))"
  shows "move_n T (Ptr a (Suc j)) n (Ptr a j) s =
           s\<lparr>mem := (mem s)(a \<mapsto> take j A @ take n (drop (Suc j) A) @
              [if n = 0 then A ! j else moved_slot T (A ! (j + n))] @ drop (Suc j + n) A)\<rparr>"
  using assms
proof (induction n arbitrary: j A s)
  case 0
  then have "j < length A" by simp
  then have e: "take j A @ take 0 (drop (Suc j) A) @
      [if (0::nat) = 0 then A ! j else moved_slot T (A ! (j + 0))] @ drop (Suc j + 0) A = A"
    by (simp add: Cons_nth_drop_Suc)
  show ?case by (simp only: e mem_same [OF "0.prems"(1)] move_n.simps)
next
  case (Suc n)
  from Suc.prems have jA: "Suc j < length A" and len2: "Suc (Suc j) + n \<le> length A" by simp_all
  from Suc.prems jA obtain x where x: "A ! Suc j = Live x"
    by (cases "A ! Suc j") (auto simp: Cons_nth_drop_Suc [symmetric])
  let ?z = "moved_slot T (A ! Suc j)"
  let ?A1 = "A[Suc j := ?z, j := A ! Suc j]"
  let ?s1 = "s\<lparr>mem := (mem s)(a \<mapsto> ?A1)\<rparr>"
  have step: "move_assign T (Ptr a j) (Ptr a (Suc j)) s = ?s1"
    using Suc.prems jA x by (simp add: move_assign_def rd_Ptr wr_Ptr)
  have tl: "list_all is_Live (take n (drop (Suc (Suc j)) ?A1))"
    using Suc.prems jA by (simp add: Cons_nth_drop_Suc [symmetric])
  have "move_n T (Ptr a (Suc (Suc j))) n (Ptr a (Suc j)) ?s1 =
     ?s1\<lparr>mem := (mem ?s1)(a \<mapsto> take (Suc j) ?A1 @ take n (drop (Suc (Suc j)) ?A1) @
        [if n = 0 then ?A1 ! Suc j else moved_slot T (?A1 ! (Suc j + n))] @ drop (Suc (Suc j) + n) ?A1)\<rparr>"
    using Suc.prems tl by (intro Suc.IH) simp_all
  then have IH: "move_n T (Ptr a (Suc (Suc j))) n (Ptr a (Suc j)) ?s1 =
     s\<lparr>mem := (mem s)(a \<mapsto> take j A @ take (Suc n) (drop (Suc j) A) @
        [if Suc n = 0 then A ! j else (if n = 0 then ?z else moved_slot T (A ! (j + Suc n)))] @
        drop (Suc j + Suc n) A)\<rparr>"
    unfolding move_n_inplace_list [OF len2, of ?z "moved_slot T"] mem_upd_upd .
  have fin: "(if Suc n = 0 then A ! j else (if n = 0 then ?z else moved_slot T (A ! (j + Suc n))))
      = (if Suc n = 0 then A ! j else moved_slot T (A ! (j + Suc n)))" by simp
  show ?case
    by (simp only: move_n.simps ptr_add.simps step Suc_eq_plus1 [symmetric] IH fin)
qed

lemma move_backward_list:
  assumes "Suc (k + Suc n) \<le> length A"
  shows
   "take k (A[k + n := f (A ! (k + n)), Suc (k + n) := A ! (k + n)]) @
    [if n = 0 then (A[k + n := f (A ! (k + n)), Suc (k + n) := A ! (k + n)]) ! k
     else f ((A[k + n := f (A ! (k + n)), Suc (k + n) := A ! (k + n)]) ! k)] @
    take n (drop k (A[k + n := f (A ! (k + n)), Suc (k + n) := A ! (k + n)])) @
    drop (Suc (k + n)) (A[k + n := f (A ! (k + n)), Suc (k + n) := A ! (k + n)])
    = take k A @ [if Suc n = 0 then A ! k else f (A ! k)] @ take (Suc n) (drop k A) @
      drop (Suc (k + Suc n)) A"
proof -
  let ?A1 = "A[k + n := f (A ! (k + n)), Suc (k + n) := A ! (k + n)]"
  have 1: "take k ?A1 = take k A" by simp
  have 2: "(if n = 0 then ?A1 ! k else f (?A1 ! k)) = f (A ! k)"
    using assms by (auto simp: nth_list_update)
  have 3: "take n (drop k ?A1) = take n (drop k A)"
    by (simp add: drop_update_swap)
  have 4: "drop (Suc (k + n)) ?A1 = A ! (k + n) # drop (Suc (k + Suc n)) A"
    using assms by (simp add: drop_update_swap Cons_nth_drop_Suc [symmetric] drop_Suc [symmetric] del: drop_Suc)
  have 5: "take (Suc n) (drop k A) = take n (drop k A) @ [A ! (k + n)]"
    using assms by (simp add: take_Suc_conv_app_nth)
  show ?thesis unfolding 1 2 3 4 5 by simp
qed


lemma move_backward_n_inplace:
  assumes "mem s a = Some A" "Suc (k + n) \<le> length A"
    "list_all is_Live (take n (drop k A))"
  shows "move_backward_n T (Ptr a (k + n)) n (Ptr a (Suc (k + n))) s =
           s\<lparr>mem := (mem s)(a \<mapsto> take k A @ [if n = 0 then A ! k else moved_slot T (A ! k)] @
              take n (drop k A) @ drop (Suc (k + n)) A)\<rparr>"
  using assms
proof (induction n arbitrary: A s)
  case 0
  then have "k < length A" by simp
  then have e: "take k A @ [if (0::nat) = 0 then A ! k else moved_slot T (A ! k)] @
      take 0 (drop k A) @ drop (Suc (k + 0)) A = A"
    by (simp add: Cons_nth_drop_Suc)
  show ?case by (simp only: e mem_same [OF "0.prems"(1)] move_backward_n.simps)
next
  case (Suc n)
  from Suc.prems have kA: "k + n < length A" and len2: "Suc (k + Suc n) \<le> length A" by simp_all
  from Suc.prems kA obtain x where x: "A ! (k + n) = Live x"
    by (cases "A ! (k + n)") (auto simp: take_Suc_conv_app_nth)
  let ?A1 = "A[k + n := moved_slot T (A ! (k + n)), Suc (k + n) := A ! (k + n)]"
  let ?s1 = "s\<lparr>mem := (mem s)(a \<mapsto> ?A1)\<rparr>"
  have step: "move_assign T (Ptr a (Suc (k + n))) (Ptr a (k + n)) s = ?s1"
    using Suc.prems kA x by (simp add: move_assign_def rd_Ptr wr_Ptr)
  have tl: "list_all is_Live (take n (drop k ?A1))"
    using Suc.prems kA by (simp add: take_Suc_conv_app_nth drop_update_swap)
  have "move_backward_n T (Ptr a (k + n)) n (Ptr a (Suc (k + n))) ?s1 =
     ?s1\<lparr>mem := (mem ?s1)(a \<mapsto> take k ?A1 @ [if n = 0 then ?A1 ! k else moved_slot T (?A1 ! k)] @
        take n (drop k ?A1) @ drop (Suc (k + n)) ?A1)\<rparr>"
    using Suc.prems tl by (intro Suc.IH) simp_all
  then have IH: "move_backward_n T (Ptr a (k + n)) n (Ptr a (Suc (k + n))) ?s1 =
     s\<lparr>mem := (mem s)(a \<mapsto> take k A @ [if Suc n = 0 then A ! k else moved_slot T (A ! k)] @
        take (Suc n) (drop k A) @ drop (Suc (k + Suc n)) A)\<rparr>"
    unfolding move_backward_list [OF len2, of "moved_slot T"] mem_upd_upd .
  have p: "ptr_sub (Ptr a (k + Suc n)) 1 = Ptr a (k + n)"
    "ptr_sub (Ptr a (Suc (k + Suc n))) 1 = Ptr a (Suc (k + n))" by simp_all
  show ?case
    by (simp only: move_backward_n.simps p step IH)
qed

lemma mem_upd_same_a:
  "mem s a = Some A \<Longrightarrow> s\<lparr>mem := (mem s)(b \<mapsto> B)\<rparr> = s\<lparr>mem := (mem s)(a \<mapsto> A, b \<mapsto> B)\<rparr>"
proof -
  assume "mem s a = Some A"
  then have "(mem s)(b \<mapsto> B) = (mem s)(a \<mapsto> A, b \<mapsto> B)" by (intro ext) simp
  then show ?thesis by simp
qed

lemma seg_id: "take i A @ take n (drop i A) @ drop (i + n) A = A"
proof -
  have "drop (i + n) A = drop n (drop i A)" by (simp add: add.commute)
  then have "take n (drop i A) @ drop (i + n) A = drop i A"
    by (simp only: append_take_drop_id)
  then show ?thesis by (simp only: append_take_drop_id)
qed

lemma relocate_n_ok:
  assumes "mem s a = Some A" "mem s b = Some B" "a \<noteq> b"
    "i + n \<le> length A" "j + n \<le> length B"
    "list_all is_Live (take n (drop i A))"
    "list_all (\<lambda>x. \<not> relocation_raises T x) (take n (drop i A))"
  shows "relocate_n T (Ptr a i) n (Ptr b j) s =
           (Inr (), s\<lparr>mem := (mem s)
              (a \<mapsto> take i A @ map (relocated_from T) (take n (drop i A)) @ drop (i + n) A,
               b \<mapsto> take j B @ take n (drop i A) @ drop (j + n) B)\<rparr>)"
proof (cases "nothrow_move_constructible T \<or> \<not> copy_constructible T")
  case True
  then have r: "relocation_raises T = move_raises_slot T" "relocated_from T = moved_slot T"
    by (auto simp: relocation_raises_def relocated_from_def fun_eq_iff)
  show ?thesis
    using True uninitialized_move_n_ok [OF assms(1-6), of T] assms(7)
    unfolding r by (simp add: relocate_n_def)
next
  case False
  then have r: "relocation_raises T = copy_raises_slot T" "relocated_from T = (\<lambda>x. x)"
    by (auto simp: relocation_raises_def relocated_from_def fun_eq_iff)
  have e: "take i A @ map (\<lambda>x. x) (take n (drop i A)) @ drop (i + n) A = A"
    using seg_id [of i A n] by simp
  show ?thesis
    using False uninitialized_copy_n_ok [OF assms(1-6), of T] assms(7)
    unfolding r e mem_upd_same_a [OF assms(1), symmetric] by (simp add: relocate_n_def)
qed

lemma relocate_n_raises:
  assumes "mem s a = Some A" "mem s b = Some B" "a \<noteq> b"
    "i + n \<le> length A" "j + n \<le> length B"
    "list_all is_Live (take n (drop i A))"
    "\<not> list_all (\<lambda>x. \<not> relocation_raises T x) (take n (drop i A))"
  shows "fst (relocate_n T (Ptr a i) n (Ptr b j) s) = Inl CtorFailure"
proof (cases "nothrow_move_constructible T \<or> \<not> copy_constructible T")
  case True
  then have r: "relocation_raises T = move_raises_slot T"
    by (auto simp: relocation_raises_def fun_eq_iff)
  show ?thesis
    using True uninitialized_move_n_raises [OF assms(1-6), of T] assms(7)
    unfolding r by (simp add: relocate_n_def)
next
  case False
  then have r: "relocation_raises T = copy_raises_slot T"
    by (auto simp: relocation_raises_def fun_eq_iff)
  show ?thesis
    using False uninitialized_copy_n_raises [OF assms(1-6), of T] assms(7)
    unfolding r by (simp add: relocate_n_def)
qed

lemma relocate_n_0 [simp]: "relocate_n T p 0 q s = (Inr (), s)"
  by (simp add: relocate_n_def)

subsection \<open>Results\<close>

lemma case_res_Inr:
  "fst r = Inr u \<Longrightarrow>
   (case r of (Inl e, s') \<Rightarrow> f e s' | (Inr u', s') \<Rightarrow> g u' s') = g u (snd r)"
  by (cases r) auto

lemma case_res_Inl:
  "fst r = Inl e \<Longrightarrow>
   (case r of (Inl e', s') \<Rightarrow> f e' s' | (Inr u', s') \<Rightarrow> g u' s') = f e (snd r)"
  by (cases r) auto

subsection \<open>What the loops leave alone\<close>

lemma mem_wr_Ptr:
  "mem (wr (Ptr a i) x s) = (case mem s a of None \<Rightarrow> mem s | Some b \<Rightarrow> (mem s)(a \<mapsto> b[i := x]))"
  by (simp add: wr_def split: option.splits)

lemma mem_wr_Null: "mem (wr Null x s) = mem s"
  by (simp add: wr_def)

lemma mem_wr_other: "p \<noteq> Ptr c i \<Longrightarrow> (\<And>i. p \<noteq> Ptr c i) \<Longrightarrow> mem (wr p x s) c = mem s c"
  by (cases p) (auto simp: wr_def split: option.splits)

lemma copy_construct_from_frame:
  assumes "copy_construct_from T d f s = (r, s')"
  shows "objs s' = objs s \<and> next_addr s' = next_addr s \<and> avail s' = avail s \<and> next_ref s' = next_ref s"
  using assms by (auto simp: copy_construct_from_def copy_construct_def split: slot.splits if_splits)

lemma move_construct_from_frame:
  assumes "move_construct_from T d f s = (r, s')"
  shows "objs s' = objs s \<and> next_addr s' = next_addr s \<and> avail s' = avail s \<and> next_ref s' = next_ref s"
  using assms by (auto simp: move_construct_from_def split: slot.splits if_splits)

lemma uninitialized_copy_n_frame:
  assumes "uninitialized_copy_n T f n d s = (r, s')"
  shows "objs s' = objs s \<and> next_addr s' = next_addr s \<and> avail s' = avail s \<and> next_ref s' = next_ref s"
  using assms
proof (induction n arbitrary: f d s r s')
  case 0
  then show ?case by simp
next
  case (Suc n)
  show ?case
  proof (cases "copy_construct_from T d f s")
    case (Pair r1 s1)
    note c = copy_construct_from_frame [OF Pair]
    show ?thesis
    proof (cases r1)
      case (Inl e)
      with Suc.prems Pair c show ?thesis by simp
    next
      case (Inr u)
      show ?thesis
      proof (cases "uninitialized_copy_n T (ptr_add f 1) n (ptr_add d 1) s1")
        case P2: (Pair r2 s2)
        note i = Suc.IH [OF P2]
        from Suc.prems Pair Inr P2 c i show ?thesis
          by (cases r2) (auto simp: destroy_at_def)
      qed
    qed
  qed
qed

lemma uninitialized_move_n_frame:
  assumes "uninitialized_move_n T f n d s = (r, s')"
  shows "objs s' = objs s \<and> next_addr s' = next_addr s \<and> avail s' = avail s \<and> next_ref s' = next_ref s"
  using assms
proof (induction n arbitrary: f d s r s')
  case 0
  then show ?case by simp
next
  case (Suc n)
  show ?case
  proof (cases "move_construct_from T d f s")
    case (Pair r1 s1)
    note c = move_construct_from_frame [OF Pair]
    show ?thesis
    proof (cases r1)
      case (Inl e)
      with Suc.prems Pair c show ?thesis by simp
    next
      case (Inr u)
      show ?thesis
      proof (cases "uninitialized_move_n T (ptr_add f 1) n (ptr_add d 1) s1")
        case P2: (Pair r2 s2)
        note i = Suc.IH [OF P2]
        from Suc.prems Pair Inr P2 c i show ?thesis
          by (cases r2) (auto simp: destroy_at_def)
      qed
    qed
  qed
qed

lemma relocate_n_frame:
  assumes "relocate_n T f n d s = (r, s')"
  shows "objs s' = objs s \<and> next_addr s' = next_addr s \<and> avail s' = avail s \<and> next_ref s' = next_ref s"
proof (cases "nothrow_move_constructible T \<or> \<not> copy_constructible T")
  case True
  with assms have "uninitialized_move_n T f n d s = (r, s')" by (simp add: relocate_n_def)
  then show ?thesis by (rule uninitialized_move_n_frame)
next
  case False
  with assms have "uninitialized_copy_n T f n d s = (r, s')" by (simp add: relocate_n_def)
  then show ?thesis by (rule uninitialized_copy_n_frame)
qed

lemma uninitialized_copy_n_fields [simp]:
  "objs (snd (uninitialized_copy_n T f n d s)) = objs s"
  "next_addr (snd (uninitialized_copy_n T f n d s)) = next_addr s"
  "avail (snd (uninitialized_copy_n T f n d s)) = avail s"
  "next_ref (snd (uninitialized_copy_n T f n d s)) = next_ref s"
proof -
  obtain r s' where e: "uninitialized_copy_n T f n d s = (r, s')"
    by (cases "uninitialized_copy_n T f n d s")
  from uninitialized_copy_n_frame [OF e] e
  show "objs (snd (uninitialized_copy_n T f n d s)) = objs s"
    "next_addr (snd (uninitialized_copy_n T f n d s)) = next_addr s"
    "avail (snd (uninitialized_copy_n T f n d s)) = avail s"
    "next_ref (snd (uninitialized_copy_n T f n d s)) = next_ref s"
    by simp_all
qed

lemma uninitialized_move_n_fields [simp]:
  "objs (snd (uninitialized_move_n T f n d s)) = objs s"
  "next_addr (snd (uninitialized_move_n T f n d s)) = next_addr s"
  "avail (snd (uninitialized_move_n T f n d s)) = avail s"
  "next_ref (snd (uninitialized_move_n T f n d s)) = next_ref s"
proof -
  obtain r s' where e: "uninitialized_move_n T f n d s = (r, s')"
    by (cases "uninitialized_move_n T f n d s")
  from uninitialized_move_n_frame [OF e] e
  show "objs (snd (uninitialized_move_n T f n d s)) = objs s"
    "next_addr (snd (uninitialized_move_n T f n d s)) = next_addr s"
    "avail (snd (uninitialized_move_n T f n d s)) = avail s"
    "next_ref (snd (uninitialized_move_n T f n d s)) = next_ref s"
    by simp_all
qed

lemma relocate_n_fields [simp]:
  "objs (snd (relocate_n T f n d s)) = objs s"
  "next_addr (snd (relocate_n T f n d s)) = next_addr s"
  "avail (snd (relocate_n T f n d s)) = avail s"
  "next_ref (snd (relocate_n T f n d s)) = next_ref s"
  by (simp_all add: relocate_n_def)

lemma destroy_n_fields [simp]:
  "objs (destroy_n p n s) = objs s" "next_addr (destroy_n p n s) = next_addr s"
  "avail (destroy_n p n s) = avail s" "next_ref (destroy_n p n s) = next_ref s"
  by (induction n arbitrary: p s) (simp_all add: destroy_at_def)

lemma uninitialized_value_construct_n_fields [simp]:
  "objs (uninitialized_value_construct_n T p n s) = objs s"
  "next_addr (uninitialized_value_construct_n T p n s) = next_addr s"
  "avail (uninitialized_value_construct_n T p n s) = avail s"
  "next_ref (uninitialized_value_construct_n T p n s) = next_ref s"
  by (induction n arbitrary: p s) simp_all

lemma move_assign_fields [simp]:
  "objs (move_assign T p q s) = objs s" "next_addr (move_assign T p q s) = next_addr s"
  "avail (move_assign T p q s) = avail s" "next_ref (move_assign T p q s) = next_ref s"
  by (simp_all add: move_assign_def split: slot.splits)

lemma copy_assign_fields [simp]:
  "objs (copy_assign p q s) = objs s" "next_addr (copy_assign p q s) = next_addr s"
  "avail (copy_assign p q s) = avail s" "next_ref (copy_assign p q s) = next_ref s"
  by (simp_all add: copy_assign_def split: slot.splits)

lemma move_n_fields [simp]:
  "objs (move_n T p n q s) = objs s" "next_addr (move_n T p n q s) = next_addr s"
  "avail (move_n T p n q s) = avail s" "next_ref (move_n T p n q s) = next_ref s"
  by (induction n arbitrary: p q s) simp_all

lemma move_backward_n_fields [simp]:
  "objs (move_backward_n T p n q s) = objs s" "next_addr (move_backward_n T p n q s) = next_addr s"
  "avail (move_backward_n T p n q s) = avail s" "next_ref (move_backward_n T p n q s) = next_ref s"
  by (induction n arbitrary: p q s) simp_all

lemma assign_loop_fields [simp]:
  "objs (assign_loop this rhs i n s) = objs s" "next_addr (assign_loop this rhs i n s) = next_addr s"
  "avail (assign_loop this rhs i n s) = avail s" "next_ref (assign_loop this rhs i n s) = next_ref s"
proof (induction this rhs i n s rule: assign_loop.induct)
  case (1 this rhs i n s)
  {
    case 1
    from "1.IH" show ?case by (subst assign_loop.simps) simp
  next
    case 2
    from "1.IH" show ?case by (subst assign_loop.simps) simp
  next
    case 3
    from "1.IH" show ?case by (subst assign_loop.simps) simp
  next
    case 4
    from "1.IH" show ?case by (subst assign_loop.simps) simp
  }
qed

subsection \<open>The loops, seen through the fields of the state\<close>

lemma fst_relocate_n:
  "mem s a = Some A \<Longrightarrow> mem s b = Some B \<Longrightarrow> a \<noteq> b \<Longrightarrow>
   i + n \<le> length A \<Longrightarrow> j + n \<le> length B \<Longrightarrow>
   list_all is_Live (take n (drop i A)) \<Longrightarrow>
   list_all (\<lambda>x. \<not> relocation_raises T x) (take n (drop i A)) \<Longrightarrow>
   fst (relocate_n T (Ptr a i) n (Ptr b j) s) = Inr ()"
  by (simp add: relocate_n_ok)

lemma mem_relocate_n:
  "mem s a = Some A \<Longrightarrow> mem s b = Some B \<Longrightarrow> a \<noteq> b \<Longrightarrow>
   i + n \<le> length A \<Longrightarrow> j + n \<le> length B \<Longrightarrow>
   list_all is_Live (take n (drop i A)) \<Longrightarrow>
   list_all (\<lambda>x. \<not> relocation_raises T x) (take n (drop i A)) \<Longrightarrow>
   mem (snd (relocate_n T (Ptr a i) n (Ptr b j) s)) =
     (mem s)(a \<mapsto> take i A @ map (relocated_from T) (take n (drop i A)) @ drop (i + n) A,
             b \<mapsto> take j B @ take n (drop i A) @ drop (j + n) B)"
  by (simp add: relocate_n_ok)

lemma fst_uninitialized_copy_n:
  "mem s a = Some A \<Longrightarrow> mem s b = Some B \<Longrightarrow> a \<noteq> b \<Longrightarrow>
   i + n \<le> length A \<Longrightarrow> j + n \<le> length B \<Longrightarrow>
   list_all is_Live (take n (drop i A)) \<Longrightarrow>
   list_all (\<lambda>x. \<not> copy_raises_slot T x) (take n (drop i A)) \<Longrightarrow>
   fst (uninitialized_copy_n T (Ptr a i) n (Ptr b j) s) = Inr ()"
  by (simp add: uninitialized_copy_n_ok)

lemma mem_uninitialized_copy_n:
  "mem s a = Some A \<Longrightarrow> mem s b = Some B \<Longrightarrow> a \<noteq> b \<Longrightarrow>
   i + n \<le> length A \<Longrightarrow> j + n \<le> length B \<Longrightarrow>
   list_all is_Live (take n (drop i A)) \<Longrightarrow>
   list_all (\<lambda>x. \<not> copy_raises_slot T x) (take n (drop i A)) \<Longrightarrow>
   mem (snd (uninitialized_copy_n T (Ptr a i) n (Ptr b j) s)) =
     (mem s)(b \<mapsto> take j B @ take n (drop i A) @ drop (j + n) B)"
  by (simp add: uninitialized_copy_n_ok)

lemma mem_destroy_n:
  "mem s a = Some A \<Longrightarrow> i + n \<le> length A \<Longrightarrow>
   mem (destroy_n (Ptr a i) n s) = (mem s)(a \<mapsto> take i A @ replicate n Uninit @ drop (i + n) A)"
  by (simp add: destroy_n_Ptr)

lemma mem_uninitialized_value_construct_n:
  "mem s a = Some A \<Longrightarrow> i + n \<le> length A \<Longrightarrow>
   mem (uninitialized_value_construct_n T (Ptr a i) n s) =
     (mem s)(a \<mapsto> take i A @ replicate n (Live (value_init T)) @ drop (i + n) A)"
  by (simp add: uninitialized_value_construct_n_Ptr)

lemma mem_move_n:
  "mem s a = Some A \<Longrightarrow> Suc j + n \<le> length A \<Longrightarrow>
   list_all is_Live (take n (drop (Suc j) A)) \<Longrightarrow>
   mem (move_n T (Ptr a (Suc j)) n (Ptr a j) s) =
     (mem s)(a \<mapsto> take j A @ take n (drop (Suc j) A) @
        [if n = 0 then A ! j else moved_slot T (A ! (j + n))] @ drop (Suc j + n) A)"
  by (simp add: move_n_inplace)

lemma mem_move_backward_n:
  "mem s a = Some A \<Longrightarrow> Suc (k + n) \<le> length A \<Longrightarrow>
   list_all is_Live (take n (drop k A)) \<Longrightarrow>
   mem (move_backward_n T (Ptr a (k + n)) n (Ptr a (Suc (k + n))) s) =
     (mem s)(a \<mapsto> take k A @ [if n = 0 then A ! k else moved_slot T (A ! k)] @
        take n (drop k A) @ drop (Suc (k + n)) A)"
  by (simp add: move_backward_n_inplace)

lemma all_Uninit_iff: "list_all (\<lambda>x. x = Uninit) xs \<longleftrightarrow> xs = replicate (length xs) Uninit"
  by (induction xs) auto

lemma vec_invE:
  assumes "vec_inv this s"
  obtains (null) "objs s this = \<lparr>data_m = \<lparr>buffer_m = Null, capacity_m = 0\<rparr>, size_m = 0\<rparr>"
  | (block) a A n where
      "objs s this = \<lparr>data_m = \<lparr>buffer_m = Ptr a 0, capacity_m = length A\<rparr>, size_m = n\<rparr>"
      "a < next_addr s" "mem s a = Some A" "n \<le> length A"
      "list_all is_Live (take n A)" "drop n A = replicate (length A - n) Uninit"
proof (cases "buffer_m (data_m (objs s this))")
  case Null
  with assms have "capacity_m (data_m (objs s this)) = 0" "size_m (objs s this) = 0"
    by (simp_all add: vec_inv_def)
  with Null have "objs s this = \<lparr>data_m = \<lparr>buffer_m = Null, capacity_m = 0\<rparr>, size_m = 0\<rparr>"
    by (cases "objs s this"; cases "data_m (objs s this)") simp
  then show ?thesis by (rule null)
next
  case (Ptr a i)
  with assms obtain A where A: "i = 0" "a < next_addr s" "mem s a = Some A"
    "length A = capacity_m (data_m (objs s this))" "size_m (objs s this) \<le> length A"
    "list_all is_Live (take (size_m (objs s this)) A)"
    "list_all (\<lambda>x. x = Uninit) (drop (size_m (objs s this)) A)"
    by (auto simp: vec_inv_def split: option.splits)
  from Ptr A have "objs s this = \<lparr>data_m = \<lparr>buffer_m = Ptr a 0, capacity_m = length A\<rparr>, size_m = size_m (objs s this)\<rparr>"
    by (cases "objs s this"; cases "data_m (objs s this)") simp
  moreover from A(7) have "drop (size_m (objs s this)) A = replicate (length A - size_m (objs s this)) Uninit"
    by (simp add: all_Uninit_iff)
  ultimately show ?thesis using A by (intro block [of a A "size_m (objs s this)"]) 
qed

lemma vec_inv_block:
  assumes "objs s this = \<lparr>data_m = \<lparr>buffer_m = Ptr a 0, capacity_m = length A\<rparr>, size_m = n\<rparr>"
      "a < next_addr s" "mem s a = Some A" "n \<le> length A"
      "list_all is_Live (take n A)" "drop n A = replicate (length A - n) Uninit"
  shows "vec_inv this s"
  using assms by (simp add: vec_inv_def all_Uninit_iff)

lemma elems_block:
  assumes "objs s this = \<lparr>data_m = \<lparr>buffer_m = Ptr a 0, capacity_m = c\<rparr>, size_m = n\<rparr>"
      "mem s a = Some A" "n \<le> length A"
  shows "elems this s = take n A"
proof -
  have "at this i s = A ! i" if "i < n" for i
    using that assms by (simp add: at_def RawMemory_index_def rd_Ptr)
  then show ?thesis
    using assms by (simp add: elems_def Size_def list_eq_iff_nth_eq)
qed

lemma elems_null:
  assumes "objs s this = \<lparr>data_m = \<lparr>buffer_m = Null, capacity_m = c\<rparr>, size_m = 0\<rparr>"
  shows "elems this s = []"
  using assms by (simp add: elems_def Size_def)

lemma make_value_cases:
  obtains (raise) "make_value T v = Inl CtorFailure" | (val) x where "make_value T v = Inr x"
proof (cases "make_value T v")
  case (Inl e)
  then have "e = CtorFailure" by (cases v) (auto split: if_splits)
  with Inl show ?thesis by (simp add: raise)
next
  case (Inr x)
  then show ?thesis by (rule val)
qed

lemmas vec_defs = Capacity_def RawMemory_Capacity_def RawMemory_ctor_def
  Allocate_def construct_value_def RawMemory_dtor_def RawMemory_index_def RawMemory_plus_def
  begin_it_def end_it_def GetAddress_def RawMemory_Swap_def set_data_def set_size_def
  Deallocate_def Size_def Let_def

lemma append_new_ok:
  assumes inv: "vec_inv this s" and ret: "fst (append_new T this v s) = Inr p"
  shows "\<exists>x. make_value T v = Inr x \<and>
           vec_inv this (snd (append_new T this v s)) \<and>
           elems this (snd (append_new T this v s)) = elems this s @ [Live x] \<and>
           Size this (snd (append_new T this v s)) = Size this s + 1 \<and>
           Capacity this (snd (append_new T this v s)) =
             (if Size this s = Capacity this s then max 1 (Capacity this s * 2) else Capacity this s) \<and>
           p = ptr_add (begin_it this (snd (append_new T this v s))) (Size this s)"
  using inv
proof (cases rule: vec_invE)
  case null
  show ?thesis
  proof (cases T v rule: make_value_cases)
    case raise
    with ret null show ?thesis
      by (simp add: append_new_def vec_defs split: if_splits)
  next
    case (val x)
    with ret null show ?thesis
      by (simp add: append_new_def vec_defs wr_Ptr elems_null vec_inv_def elems_def at_def rd_Ptr
            split: if_splits)
  qed
next
  case (block a A n)
  let ?r = "append_new T this v s"
  show ?thesis
  proof (cases T v rule: make_value_cases)
    case raise
    with ret block show ?thesis
      by (simp add: append_new_def vec_defs split: if_splits)
  next
    case (val x)
    show ?thesis
    proof (cases "n = length A")
      case False
      with block have nA: "n < length A" by simp
      have d: "drop (Suc n) (A[n := Live x]) = replicate (length A - Suc n) Uninit"
        using block(6) nA
        by (metis Cons_nth_drop_Suc Suc_diff_Suc drop_update_cancel lessI list.inject replicate_Suc)
      have f: "fst ?r = Inr (Ptr a n)"
        using val block False by (simp add: append_new_def vec_defs)
      have o: "objs (snd ?r) this = \<lparr>data_m = \<lparr>buffer_m = Ptr a 0, capacity_m = length (A[n := Live x])\<rparr>, size_m = Suc n\<rparr>"
        using val block False by (simp add: append_new_def vec_defs)
      have m: "mem (snd ?r) a = Some (A[n := Live x])"
        using val block False by (simp add: append_new_def vec_defs wr_Ptr)
      have na: "a < next_addr (snd ?r)"
        using val block False by (simp add: append_new_def vec_defs)
      have l: "list_all is_Live (take (Suc n) (A[n := Live x]))"
        using block nA by (simp add: take_Suc_conv_app_nth)
      have "vec_inv this (snd ?r)"
        using o na m _ l by (rule vec_inv_block) (use nA d in simp_all)
      moreover have "elems this (snd ?r) = elems this s @ [Live x]"
        using nA by (simp add: elems_block [OF o m] elems_block [OF block(1,3,4)] take_Suc_conv_app_nth)
      ultimately show ?thesis
        using val f ret o block(1) False by (simp add: vec_defs)
    next
      case True
      let ?c = "next_addr s"
      define N :: nat where "N = (if n = 0 then 1 else length A * 2)"
      have N: "n < N" "N = max 1 (length A * 2)" using True by (cases A; auto simp: N_def)+
      have Nif: "(if size_m (objs s this) = 0 then 1 else Capacity this s * 2) = N"
        using True block by (simp add: N_def vec_defs)
      let ?C = "(replicate N Uninit)[n := Live x]"
      let ?s2 = "snd (construct_value T (Ptr ?c n) v (snd (RawMemory_ctor N s)))"
      from ret val block True have av: "\<not> avail s < N" "N \<noteq> 0"
        by (auto simp add: append_new_def vec_defs N_def split: if_splits)
      have ac: "a \<noteq> ?c" using block by simp
      have m2: "mem ?s2 a = Some A" "mem ?s2 ?c = Some ?C"
        using ac block val av by (simp_all add: vec_defs wr_Ptr)
      have ok: "list_all (\<lambda>x. \<not> relocation_raises T x) (take n (drop 0 A))"
      proof (rule ccontr)
        assume "\<not> ?thesis"
        then have "fst (relocate_n T (Ptr a 0) n (Ptr ?c 0) ?s2) = Inl CtorFailure"
          using block True N by (intro relocate_n_raises [OF m2 ac]) simp_all
        with val block True av have "fst ?r = Inl CtorFailure"
          unfolding append_new_def Nif by (simp add: vec_defs wr_Ptr case_res_Inl)
        with ret show False by simp
      qed
      have rl: "fst (relocate_n T (Ptr a 0) n (Ptr ?c 0) ?s2) = Inr ()"
        using block True N ok by (intro fst_relocate_n [OF m2 ac]) simp_all
      have m3: "mem (snd (relocate_n T (Ptr a 0) n (Ptr ?c 0) ?s2)) =
          (mem ?s2)(a \<mapsto> map (relocated_from T) A, ?c \<mapsto> A @ drop n ?C)"
        using block True N ok by (subst mem_relocate_n [OF m2 ac]) simp_all
      have res: "fst ?r = Inr (Ptr ?c n) \<and>
          objs (snd ?r) this = \<lparr>data_m = \<lparr>buffer_m = Ptr ?c 0, capacity_m = N\<rparr>, size_m = Suc n\<rparr> \<and>
          mem (snd ?r) ?c = Some (A @ drop n ?C) \<and> next_addr (snd ?r) = Suc ?c"
        using val block True av rl m3 ac
        unfolding append_new_def Nif by (simp add: vec_defs wr_Ptr case_res_Inr mem_destroy_n)
      have C: "A @ drop n ?C = A @ [Live x] @ replicate (N - Suc n) Uninit"
        using N by (simp add: drop_update_swap Cons_nth_drop_Suc [symmetric] flip: replicate_Suc)
      let ?A' = "A @ [Live x] @ replicate (N - Suc n) Uninit"
      have lA': "length ?A' = N" using N True by simp
      have o: "objs (snd ?r) this = \<lparr>data_m = \<lparr>buffer_m = Ptr ?c 0, capacity_m = length ?A'\<rparr>, size_m = Suc n\<rparr>"
        using res lA' by simp
      have m: "mem (snd ?r) ?c = Some ?A'" using res C by simp
      have "vec_inv this (snd ?r)"
        using o _ m by (rule vec_inv_block) (use res block True N in simp_all)
      moreover have "elems this (snd ?r) = elems this s @ [Live x]"
        using True N by (simp add: elems_block [OF o m] elems_block [OF block(1,3,4)])
      ultimately show ?thesis
        using val res ret o block(1) True N by (simp add: vec_defs)
    qed
  qed
qed

subsection \<open>Append\<close>

lemma vec_inv_Size_le: "vec_inv this s \<Longrightarrow> Size this s \<le> Capacity this s"
  by (simp add: vec_inv_def Size_def Capacity_def RawMemory_Capacity_def)

lemma PushBack_ok:
  assumes "vec_inv this s" "fst (PushBack T this x s) = Inr ()"
  shows "vec_inv this (snd (PushBack T this x s)) \<and>
         elems this (snd (PushBack T this x s)) = elems this s @ [Live x] \<and>
         Size this (snd (PushBack T this x s)) = Size this s + 1 \<and>
         Capacity this (snd (PushBack T this x s)) =
           (if Size this s = Capacity this s then max 1 (Capacity this s * 2) else Capacity this s)"
proof -
  obtain r s1 where e: "append_new T this (ByCopy x) s = (r, s1)"
    by (cases "append_new T this (ByCopy x) s")
  with assms(2) obtain p where r: "r = Inr p"
    by (cases r) (simp_all add: PushBack_def)
  from e r have f: "fst (append_new T this (ByCopy x) s) = Inr p" by simp
  from append_new_ok [OF assms(1) f] e r show ?thesis
    by (auto simp: PushBack_def split: if_splits)
qed

lemma push_all_ok:
  assumes "vec_inv this s" "fst (push_all T this xs s) = Inr ()"
  shows "vec_inv this (snd (push_all T this xs s)) \<and>
         Size this (snd (push_all T this xs s)) = Size this s + length xs \<and>
         elems this (snd (push_all T this xs s)) = elems this s @ map Live xs \<and>
         Capacity this (snd (push_all T this xs s)) =
           spec_capacity_after (Size this s) (Capacity this s) (length xs)"
  using assms
proof (induction xs arbitrary: s)
  case Nil
  then show ?case by simp
next
  case (Cons x xs)
  obtain r s1 where e: "PushBack T this x s = (r, s1)" by (cases "PushBack T this x s")
  with Cons.prems(2) have r: "r = Inr ()" by (cases r) simp_all
  with e Cons.prems(2) have rest: "fst (push_all T this xs s1) = Inr ()" by simp
  from e r have f: "fst (PushBack T this x s) = Inr ()" by simp
  from PushBack_ok [OF Cons.prems(1) f] e
  have s1: "vec_inv this s1" "elems this s1 = elems this s @ [Live x]"
    "Size this s1 = Size this s + 1"
    "Capacity this s1 =
       (if Size this s = Capacity this s then max 1 (Capacity this s * 2) else Capacity this s)"
    by simp_all
  from vec_inv_Size_le [OF Cons.prems(1)]
  have c: "(Capacity this s < Size this s + 1) = (Size this s = Capacity this s)" by auto
  from Cons.IH [OF s1(1) rest] s1 e r c show ?case by simp
qed

lemma push_all_prefix:
  "fst (push_all T this xs s) = Inr () \<Longrightarrow> fst (push_all T this (take k xs) s) = Inr ()"
proof (induction xs arbitrary: k s)
  case Nil
  then show ?case by simp
next
  case (Cons x xs)
  show ?case
  proof (cases k)
    case 0
    then show ?thesis by simp
  next
    case (Suc j)
    with Cons show ?thesis
      by (cases "PushBack T this x s") (auto split: sum.splits)
  qed
qed

subsection \<open>Erase and self-assignment\<close>

lemma list_all_seg:
  assumes "list_all P (take n A)" "j + k \<le> n"
  shows "list_all P (take k (drop j A))"
proof -
  have "take k (drop j A) = drop j (take (j + k) A)" by (simp add: drop_take)
  moreover have "set (take (j + k) A) \<subseteq> set (take n A)"
    using assms(2) by (rule set_take_subset_set_take)
  ultimately show ?thesis
    using assms(1) set_drop_subset [of j "take (j + k) A"] by (auto simp: list_all_iff)
qed

lemma nat_int_sub: "nat (int a - int b) = a - b" "nat (int a - (1 + int b)) = a - Suc b"
  by simp_all

lemma vec_inv_Size_pos:
  assumes "vec_inv this s" "i < Size this s"
  obtains a A n where
      "objs s this = \<lparr>data_m = \<lparr>buffer_m = Ptr a 0, capacity_m = length A\<rparr>, size_m = n\<rparr>"
      "a < next_addr s" "mem s a = Some A" "n \<le> length A" "i < n"
      "list_all is_Live (take n A)" "drop n A = replicate (length A - n) Uninit"
  using assms(1)
proof (cases rule: vec_invE)
  case null
  with assms(2) show ?thesis by (simp add: Size_def)
next
  case (block a A n)
  with assms(2) that show ?thesis by (simp add: Size_def)
qed

lemma erase_list:
  assumes "i < n" "n \<le> length A"
  shows "(take i A @ take (n - Suc i) (drop (Suc i) A) @ [L] @ drop n A)[n - Suc 0 := y]
         = take i A @ take (n - Suc i) (drop (Suc i) A) @ [y] @ drop n A"
proof -
  have "length (take i A @ take (n - Suc i) (drop (Suc i) A)) = n - Suc 0"
    using assms by simp
  then show ?thesis
    by (metis append.assoc append_Cons list_update_length)
qed

lemma Erase_ok:
  assumes inv: "vec_inv this s" and i: "i < Size this s"
    and pos: "pos = ptr_add (begin_it this s) i"
  shows "vec_inv this (snd (Erase T this pos s)) \<and>
         elems this (snd (Erase T this pos s)) = take i (elems this s) @ drop (Suc i) (elems this s) \<and>
         Size this (snd (Erase T this pos s)) = Size this s - 1 \<and>
         Capacity this (snd (Erase T this pos s)) = Capacity this s \<and>
         fst (Erase T this pos s) = ptr_add (begin_it this (snd (Erase T this pos s))) i \<and>
         fst (Erase T this pos s) = pos"
  using inv i
proof (cases rule: vec_inv_Size_pos)
  case (1 a A n)
  let ?r = "Erase T this pos s"
  let ?k = "n - Suc i"
  let ?A' = "take i A @ take ?k (drop (Suc i) A) @ [Uninit] @ drop n A"
  have p: "pos = Ptr a i" using pos 1 by (simp add: begin_it_def GetAddress_def)
  have live: "list_all is_Live (take ?k (drop (Suc i) A))"
    using 1(5,6) by (intro list_all_seg [of _ n]) simp_all
  have len: "Suc i + ?k \<le> length A" using 1 by simp
  have mv: "mem (move_n T (Ptr a (Suc i)) ?k (Ptr a i) s) =
      (mem s)(a \<mapsto> take i A @ take ?k (drop (Suc i) A) @
        [if ?k = 0 then A ! i else moved_slot T (A ! (i + ?k))] @ drop (Suc i + ?k) A)"
    by (rule mem_move_n [OF 1(3) len live])
  have e: "Suc i + ?k = n" using 1 by simp
  have lA: "0 < length A" using 1(4,5) by linarith
  have res: "fst ?r = Ptr a i \<and>
      objs (snd ?r) this = \<lparr>data_m = \<lparr>buffer_m = Ptr a 0, capacity_m = length ?A'\<rparr>, size_m = n - 1\<rparr> \<and>
      mem (snd ?r) a = Some ?A' \<and> next_addr (snd ?r) = next_addr s"
    using 1 mv erase_list [OF 1(5,4)] lA unfolding e p
    by (simp add: Erase_def std_move_def vec_defs dec_def destroy_at_def mem_wr_Ptr nat_int_sub)
  then have o: "objs (snd ?r) this = \<lparr>data_m = \<lparr>buffer_m = Ptr a 0, capacity_m = length ?A'\<rparr>, size_m = n - 1\<rparr>"
    and m: "mem (snd ?r) a = Some ?A'" by simp_all
  have tk: "take (n - 1) ?A' = take i A @ take ?k (drop (Suc i) A)" using 1 by simp
  have "vec_inv this (snd ?r)"
    using o _ m
  proof (rule vec_inv_block)
    show "a < next_addr (snd ?r)" using res 1 by simp
    show "n - 1 \<le> length ?A'" using 1 by simp
    show "list_all is_Live (take (n - 1) ?A')"
      unfolding tk using live 1(5,6) list_all_seg [OF 1(6), of 0 i] by simp
    show "drop (n - 1) ?A' = replicate (length ?A' - (n - 1)) Uninit"
      using 1 by (simp add: replicate_app_Cons_same flip: replicate_Suc) 
  qed
  moreover have "elems this (snd ?r) = take i (elems this s) @ drop (Suc i) (elems this s)"
    using 1 by (simp add: elems_block [OF o m] elems_block [OF 1(1,3,4)] tk drop_take)
  ultimately show ?thesis
    using res o 1 p by (simp add: vec_defs)
qed

lemma rd_elems:
  "i < Size this s \<Longrightarrow> rd s (ptr_add (begin_it this s) i) = elems this s ! i"
  by (simp add: elems_def at_def RawMemory_index_def begin_it_def GetAddress_def)

lemma copy_assign_self [simp]: "copy_assign p p s = s"
proof (cases p)
  case Null
  then show ?thesis by (simp add: copy_assign_def rd_def)
next
  case (Ptr a i)
  show ?thesis
  proof (cases "mem s a")
    case None
    with Ptr show ?thesis by (simp add: copy_assign_def rd_def)
  next
    case (Some b)
    have "s\<lparr>mem := (mem s)(a \<mapsto> b[i := b ! i])\<rparr> = s"
      unfolding list_update_id using Some by (rule mem_same)
    with Ptr Some show ?thesis
      by (cases "i < length b"; cases "b ! i") (simp_all add: copy_assign_def rd_def wr_def)
  qed
qed

lemma assign_loop_same: "rhs = this \<Longrightarrow> assign_loop this rhs i n s = s"
  by (induction this rhs i n s rule: assign_loop.induct) (subst assign_loop.simps, simp)

lemma assign_loop_self [simp]: "assign_loop this this i n s = s"
  by (rule assign_loop_same) simp

lemma set_size_same: "size_m (objs s this) = n \<Longrightarrow> set_size this n s = s"
proof -
  assume "size_m (objs s this) = n"
  then have "(objs s)(this := (objs s this)\<lparr>size_m := n\<rparr>) = objs s" by (intro ext) simp
  then show ?thesis by (simp add: set_size_def)
qed

subsection \<open>Evaluation on concrete stores\<close>

lemmas loops_numeral =
  uninitialized_copy_n.simps(2) [of _ _ "pred_numeral k", folded numeral_eq_Suc]
  uninitialized_move_n.simps(2) [of _ _ "pred_numeral k", folded numeral_eq_Suc]
  destroy_n.simps(2) [of _ "pred_numeral k", folded numeral_eq_Suc]
  uninitialized_value_construct_n.simps(2) [of _ _ "pred_numeral k", folded numeral_eq_Suc]
  move_n.simps(2) [of _ _ "pred_numeral k", folded numeral_eq_Suc]
  move_backward_n.simps(2) [of _ _ "pred_numeral k", folded numeral_eq_Suc]
  replicate.simps(2) [of "pred_numeral k", folded numeral_eq_Suc]
  upt_rec [of _ "numeral k"]
  for k

lemmas run_defs = T_int_def T_guarded_def init_def PushBack_def PushBack_rv_def append_new_def
  Insert_def insert_new_def Reserve_def Resize_def Erase_def assign_move_def data_Swap_def Swap_def
  Vector_move_def Vector_copy_def Vector_dtor_def assign_copy_def
  Capacity_def RawMemory_Capacity_def RawMemory_ctor_def Allocate_def
  construct_value_def RawMemory_index_def RawMemory_plus_def relocate_n_def begin_it_def end_it_def
  GetAddress_def RawMemory_Swap_def RawMemory_dtor_def Deallocate_def set_data_def set_size_def
  wr_def rd_def move_construct_from_def copy_construct_from_def copy_construct_def
  move_assign_def copy_assign_def std_move_def move_backward_def dec_def
  destroy_at_def RawMemory_default_def elems_def Size_def at_def vec_inv_def Let_def loops_numeral

lemma s123_eval:
  "objs s123 0 = \<lparr>data_m = \<lparr>buffer_m = Ptr 2 0, capacity_m = 4\<rparr>, size_m = 3\<rparr>"
  "objs s123 (Suc 0) = \<lparr>data_m = \<lparr>buffer_m = Null, capacity_m = 0\<rparr>, size_m = 0\<rparr>"
  "mem s123 2 = Some [Live 1, Live 2, Live 3, Uninit]"
  "next_addr s123 = 3" "avail s123 = 12"
  unfolding s123_def by (simp_all add: run_defs)

lemma g12_eval:
  "objs g12 0 = \<lparr>data_m = \<lparr>buffer_m = Ptr 0 0, capacity_m = 2\<rparr>, size_m = 2\<rparr>"
  "mem g12 0 = Some [Live 1, Live 2]"
  "next_addr g12 = 1" "avail g12 = 14"
  unfolding g12_def by (simp_all add: run_defs)

lemma g12_insert_eval:
  "\<exists>S. Insert T_guarded 0 (ptr_add (begin_it 0 g12) 1) 9 g12 = (Inr (Ptr 1 1), S) \<and>
     objs S 0 = \<lparr>data_m = \<lparr>buffer_m = Ptr 1 0, capacity_m = 4\<rparr>, size_m = 3\<rparr> \<and>
     mem S 1 = Some [Uninit, Uninit, Live 2, Uninit]"
  by (simp add: run_defs g12_eval cong: let_weak_cong)

section \<open>The claims\<close>

text \<open>
  The concrete stores used below: \<open>s123\<close> is the store after \<open>PushBack(1)\<close>,
  \<open>PushBack(2)\<close>, \<open>PushBack(3)\<close> on the default-constructed sequence at reference 0
  (elements of type \<open>int\<close>); the sequence at reference 1 is default-constructed and empty.
\<close>

text \<open>
  Claim C1: move-assignment \<open>t = move(s)\<close> swaps the Storage Owner and the size with the
  source, leaves the source empty, and afterwards \<open>t\<close> holds exactly the prior content of
  \<open>s\<close>. The code swaps \<open>data_\<close> only: \<open>size_\<close> of the target is never written. With
  \<open>t\<close> empty and \<open>s = [1, 2, 3]\<close>, \<open>t\<close> receives the block of \<open>s\<close> (capacity 4) and keeps
  size 0, so it shows no element, and the three elements are live in a block whose owner
  counts none of them.
\<close>

theorem move_assignment_keeps_target_size:
  "elems 0 s123 = [Live 1, Live 2, Live 3] \<and> Size 0 s123 = 3 \<and> elems 1 s123 = [] \<and>
   elems 1 (assign_move 1 0 s123) = [] \<and> Size 1 (assign_move 1 0 s123) = 0 \<and>
   Capacity 1 (assign_move 1 0 s123) = 4 \<and> Size 0 (assign_move 1 0 s123) = 0"
  by (simp add: run_defs s123_eval)

text \<open>
  Claim C3: move-construction from \<open>s\<close> transfers the Storage Owner and the size with no
  allocation and leaves \<open>s\<close> with size 0 and capacity 0. The member initialiser
  \<open>data_(other.size_)\<close> allocates a block of \<open>other.size_\<close> slots, which the swap in the
  body hands to the source: moving from \<open>s = [1, 2, 3]\<close> succeeds and the new sequence holds
  \<open>[1, 2, 3]\<close>, but one block was allocated (three slots less are available) and the
  source is left with size 0 and capacity 3.
\<close>

theorem move_construction_allocates_for_source:
  "fst (Vector_move 1 0 s123) = Inr () \<and>
   elems 1 (snd (Vector_move 1 0 s123)) = [Live 1, Live 2, Live 3] \<and>
   Size 0 (snd (Vector_move 1 0 s123)) = 0 \<and>
   Capacity 0 (snd (Vector_move 1 0 s123)) = 3 \<and>
   next_addr (snd (Vector_move 1 0 s123)) = next_addr s123 + 1 \<and>
   avail (snd (Vector_move 1 0 s123)) = avail s123 - 3"
  by (simp add: run_defs s123_eval)

text \<open>
  Claim C4: after every operation of the interface, move-assignment among them,
  \<open>0 \<le> size \<le> capacity\<close> holds and the slots below \<open>size\<close> hold constructed values.
  Move-assigning the empty sequence to \<open>t = [1, 2, 3]\<close> gives \<open>t\<close> the null block of
  capacity 0 and leaves its size at 3: the invariant is broken, and the three positions
  the interface shows are not constructed values.
\<close>

theorem move_assignment_breaks_invariant:
  "vec_inv 0 s123 \<and> vec_inv 1 s123 \<and>
   Size 0 (assign_move 0 1 s123) = 3 \<and> Capacity 0 (assign_move 0 1 s123) = 0 \<and>
   elems 0 (assign_move 0 1 s123) = [Uninit, Uninit, Uninit] \<and>
   \<not> vec_inv 0 (assign_move 0 1 s123)"
  by (simp add: run_defs s123_eval)

text \<open>
  Claim C2: when element construction fails during the relocation of an insert or append
  that reallocates, the failure reaches the caller and the sequence is unchanged. In
  \<open>Insert\<close> both relocations stand in \<open>try\<close> blocks whose handlers do not rethrow. Take
  an element type whose move constructor may raise (so relocation copies) and whose copy
  constructor raises on the value 1, and the full sequence \<open>g12 = [1, 2]\<close> of capacity 2
  (built by \<open>Reserve(2)\<close> and two \<open>PushBack(T&&)\<close>). \<open>Insert(begin() + 1, 9)\<close> fails to
  copy the prefix \<open>[1]\<close>, destroys the new element in the handler, and goes on: it returns
  normally, with size 3 and the slots 0 and 1 of the new block raw.
\<close>

theorem insert_swallows_relocation_failure:
  "vec_inv 0 g12 \<and> elems 0 g12 = [Live 1, Live 2] \<and> Capacity 0 g12 = 2 \<and>
   fst (Insert T_guarded 0 (ptr_add (begin_it 0 g12) 1) 9 g12) = Inr (Ptr 1 1) \<and>
   Size 0 (snd (Insert T_guarded 0 (ptr_add (begin_it 0 g12) 1) 9 g12)) = 3 \<and>
   elems 0 (snd (Insert T_guarded 0 (ptr_add (begin_it 0 g12) 1) 9 g12)) = [Uninit, Uninit, Live 2]"
proof -
  from g12_insert_eval obtain S where
    e: "Insert T_guarded 0 (ptr_add (begin_it 0 g12) 1) 9 g12 = (Inr (Ptr 1 1), S)"
    and S: "objs S 0 = \<lparr>data_m = \<lparr>buffer_m = Ptr 1 0, capacity_m = 4\<rparr>, size_m = 3\<rparr>"
      "mem S 1 = Some [Uninit, Uninit, Live 2, Uninit]"
    by blast
  have g: "vec_inv 0 g12 \<and> elems 0 g12 = [Live 1, Live 2] \<and> Capacity 0 g12 = 2"
    by (simp add: vec_inv_def elems_def at_def rd_def Size_def Capacity_def RawMemory_Capacity_def
          RawMemory_index_def g12_eval loops_numeral)
  show ?thesis
    unfolding e using g S
    by (simp add: elems_def at_def rd_def Size_def RawMemory_index_def loops_numeral)
qed

text \<open>
  Claim C6: a run of \<open>N\<close> \<open>PushBack\<close> calls that all return, started on any sequence that
  satisfies the invariant, ends with the starting size plus \<open>N\<close> and with the new elements
  after the old ones, in the order of the calls; and after every prefix of the run the
  capacity is what the growth policy of the spec gives (a new block of
  \<open>max(1, capacity * 2)\<close> slots whenever the append needs more capacity than there is).
  The witness is the run \<open>PushBack(1), PushBack(2), PushBack(3)\<close> from the empty
  sequence, whose capacity goes 0, 1, 2, 4.
\<close>

theorem push_back_sequence:
  assumes "vec_inv this s" and "fst (push_all T this xs s) = Inr ()"
  shows "vec_inv this (snd (push_all T this xs s)) \<and>
         Size this (snd (push_all T this xs s)) = Size this s + length xs \<and>
         elems this (snd (push_all T this xs s)) = elems this s @ map Live xs \<and>
         (\<forall>k\<le>length xs. Capacity this (snd (push_all T this (take k xs) s)) =
            spec_capacity_after (Size this s) (Capacity this s) k)"
proof -
  have "Capacity this (snd (push_all T this (take k xs) s)) =
          spec_capacity_after (Size this s) (Capacity this s) k" if "k \<le> length xs" for k
    using push_all_ok [OF assms(1) push_all_prefix [OF assms(2), of k]] that by simp
  with push_all_ok [OF assms] show ?thesis by simp
qed

theorem push_back_sequence_witness:
  "vec_inv 0 (init 16 :: int state) \<and> fst (push_all T_int 0 [1, 2, 3] (init 16)) = Inr () \<and>
   Size 0 (snd (push_all T_int 0 [1, 2, 3] (init 16))) = 3 \<and>
   elems 0 (snd (push_all T_int 0 [1, 2, 3] (init 16))) = [Live 1, Live 2, Live 3] \<and>
   Capacity 0 (init 16 :: int state) = 0 \<and>
   Capacity 0 (snd (push_all T_int 0 [1] (init 16))) = 1 \<and>
   Capacity 0 (snd (push_all T_int 0 [1, 2] (init 16))) = 2 \<and>
   Capacity 0 (snd (push_all T_int 0 [1, 2, 3] (init 16))) = 4"
proof -
  have h1: "vec_inv 0 (init 16 :: int state)"
    by (simp add: vec_inv_def init_def RawMemory_default_def)
  have h2: "fst (push_all T_int 0 [1, 2, 3] (init 16)) = Inr ()"
    by (simp add: run_defs cong: let_weak_cong)
  have z: "Size 0 (init 16 :: int state) = 0" "Capacity 0 (init 16 :: int state) = 0"
    "elems 0 (init 16 :: int state) = []"
    by (simp_all add: init_def Size_def Capacity_def RawMemory_Capacity_def RawMemory_default_def elems_def)
  note t = push_back_sequence [OF h1 h2]
  from t have c: "Capacity 0 (snd (push_all T_int 0 (take k [1, 2, 3]) (init 16))) =
      spec_capacity_after 0 0 k" if "k \<le> 3" for k
    using that z by simp
  from c [of 1] c [of 2] c [of 3]
  have "Capacity 0 (snd (push_all T_int 0 [1] (init 16))) = 1"
    "Capacity 0 (snd (push_all T_int 0 [1, 2] (init 16))) = 2"
    "Capacity 0 (snd (push_all T_int 0 [1, 2, 3] (init 16))) = 4"
    by (simp_all add: eval_nat_numeral)
  with h1 h2 t z show ?thesis by simp
qed

text \<open>
  Claim C8: on a sequence that satisfies the invariant, \<open>Erase(pos)\<close> at a position
  \<open>pos = begin() + i\<close> with \<open>i < size\<close> removes exactly the element at index \<open>i\<close>: the
  elements before it stay, those after it move one position down in their order, the size
  drops by one, and the iterator returned is \<open>begin() + i\<close>, which points to the element
  that followed the erased one, or is \<open>end()\<close> when the erased element was the last.
\<close>

theorem erase_removes_one:
  assumes "vec_inv this s" and "i < Size this s" and "pos = ptr_add (begin_it this s) i"
  shows "vec_inv this (snd (Erase T this pos s)) \<and>
         elems this (snd (Erase T this pos s)) = take i (elems this s) @ drop (Suc i) (elems this s) \<and>
         Size this (snd (Erase T this pos s)) = Size this s - 1 \<and>
         fst (Erase T this pos s) = ptr_add (begin_it this (snd (Erase T this pos s))) i \<and>
         (if Suc i < Size this s
          then rd (snd (Erase T this pos s)) (fst (Erase T this pos s)) = elems this s ! Suc i
          else fst (Erase T this pos s) = end_it this (snd (Erase T this pos s)))"
proof -
  let ?s' = "snd (Erase T this pos s)"
  note e = Erase_ok [OF assms, of T]
  have len: "length (elems this s) = Size this s" by (simp add: elems_def)
  have "rd ?s' (fst (Erase T this pos s)) = elems this s ! Suc i" if "Suc i < Size this s"
  proof -
    from that e have "i < Size this ?s'" by simp
    from rd_elems [OF this] e that len show ?thesis
      by (simp add: nth_append)
  qed
  moreover have "fst (Erase T this pos s) = end_it this ?s'" if "\<not> Suc i < Size this s"
  proof -
    from that assms(2) e have "Size this ?s' = i" by simp
    with e show ?thesis by (simp add: end_it_def begin_it_def Size_def)
  qed
  ultimately show ?thesis using e by simp
qed

theorem erase_removes_one_witness:
  "vec_inv 0 s123 \<and> 1 < Size 0 s123 \<and> elems 0 s123 = [Live 1, Live 2, Live 3] \<and>
   elems 0 (snd (Erase T_int 0 (ptr_add (begin_it 0 s123) 1) s123)) = [Live 1, Live 3] \<and>
   Size 0 (snd (Erase T_int 0 (ptr_add (begin_it 0 s123) 1) s123)) = 2 \<and>
   rd (snd (Erase T_int 0 (ptr_add (begin_it 0 s123) 1) s123))
      (fst (Erase T_int 0 (ptr_add (begin_it 0 s123) 1) s123)) = Live 3"
proof -
  have h: "vec_inv 0 s123" "Size 0 s123 = 3" "elems 0 s123 = [Live 1, Live 2, Live 3]"
    by (simp_all add: vec_inv_def Size_def elems_def at_def rd_def RawMemory_index_def
          s123_eval loops_numeral)
  then have i: "1 < Size 0 s123" by simp
  note t = erase_removes_one [OF h(1) i refl, of T_int]
  from t h have a: "elems 0 (snd (Erase T_int 0 (ptr_add (begin_it 0 s123) 1) s123)) = [Live 1, Live 3]"
    "Size 0 (snd (Erase T_int 0 (ptr_add (begin_it 0 s123) 1) s123)) = 2"
    by simp_all
  have c: "Suc 1 < Size 0 s123" using h by simp
  from t have "if Suc 1 < Size 0 s123
      then rd (snd (Erase T_int 0 (ptr_add (begin_it 0 s123) 1) s123))
             (fst (Erase T_int 0 (ptr_add (begin_it 0 s123) 1) s123)) = elems 0 s123 ! Suc 1
      else fst (Erase T_int 0 (ptr_add (begin_it 0 s123) 1) s123) =
             end_it 0 (snd (Erase T_int 0 (ptr_add (begin_it 0 s123) 1) s123))"
    by blast
  with c have "rd (snd (Erase T_int 0 (ptr_add (begin_it 0 s123) 1) s123))
      (fst (Erase T_int 0 (ptr_add (begin_it 0 s123) 1) s123)) = elems 0 s123 ! Suc 1"
    by (simp only: if_True)
  with h have b: "rd (snd (Erase T_int 0 (ptr_add (begin_it 0 s123) 1) s123))
      (fst (Erase T_int 0 (ptr_add (begin_it 0 s123) 1) s123)) = Live 3"
    by simp
  from h i a b show ?thesis by (intro conjI)
qed

text \<open>
  Claim C10: self-copy-assignment \<open>v = v\<close> leaves \<open>v\<close> unchanged, although
  \<open>operator=\<close> has no self-assignment check. With \<open>size \<le> capacity\<close> the branch that
  reuses the storage is taken; each \<open>data_[i] = rhs.data_[i]\<close> assigns an element to
  itself, no element is constructed, and \<open>size_\<close> is written with its own value: the call
  returns and the whole store is as before (size, values, capacity and block of \<open>v\<close>
  included).
\<close>

theorem self_copy_assignment:
  assumes "Size v s \<le> Capacity v s"
  shows "assign_copy T v v s = (Inr (), s)"
  using assms
  by (simp add: assign_copy_def Size_def Capacity_def Let_def set_size_same)

theorem self_copy_assignment_witness:
  "Size 0 s123 \<le> Capacity 0 s123 \<and> assign_copy T_int 0 0 s123 = (Inr (), s123) \<and>
   elems 0 s123 = [Live 1, Live 2, Live 3]"
proof -
  have h: "Size 0 s123 \<le> Capacity 0 s123" "elems 0 s123 = [Live 1, Live 2, Live 3]"
    by (simp_all add: Size_def Capacity_def RawMemory_Capacity_def elems_def at_def rd_def
          RawMemory_index_def s123_eval loops_numeral)
  from self_copy_assignment [OF h(1), of T_int] h show ?thesis by simp
qed

end
